theory Spec2Isabelle
  imports Main "HOL-Library.Word"
begin

section \<open>The virtio balloon driver (drivers/virtio/virtio\_balloon.c)\<close>

text \<open>
  A shallow embedding of the balloon ledger and of its two wire encodings. The driver
  state \<open>struct virtio_balloon\<close> is a record; every function of the source that
  changes it takes the record and returns the new one. A function that can dereference
  a missing bitmap, write past an array or wait for an acknowledgement that never comes
  returns \<open>None\<close> there, so that every result \<open>Some s\<close> is a state the C code
  really returns with.
\<close>

subsection \<open>Constants of the build\<close>

type_synonym u32 = "32 word"
type_synonym u64 = "64 word"

text \<open>
  The macros below come from headers that are not part of the driver file. They are
  the parameters of the model: \<open>PAGE_SHIFT\<close> (\<open>PAGE_SIZE = 1 << PAGE_SHIFT\<close>),
  \<open>VIRTIO_BALLOON_PFN_SHIFT\<close>, the two chunk shifts of the wire format, and the
  allocator's \<open>MAX_ORDER\<close> and \<open>MIGRATE_TYPES\<close>.
\<close>

record config =
  PAGE_SHIFT :: nat
  VIRTIO_BALLOON_PFN_SHIFT :: nat
  VIRTIO_BALLOON_CHUNK_BASE_SHIFT :: nat
  VIRTIO_BALLOON_CHUNK_SIZE_SHIFT :: nat
  MAX_ORDER :: nat
  MIGRATE_TYPES :: nat

definition PAGE_SIZE :: "config \<Rightarrow> nat" where
  "PAGE_SIZE cfg = 2 ^ PAGE_SHIFT cfg"

text \<open>The model is of an LP64 build: \<open>unsigned long\<close> has 64 bits.\<close>

definition BITS_PER_LONG :: nat where
  "BITS_PER_LONG = 64"

definition BITS_PER_BYTE :: nat where
  "BITS_PER_BYTE = 8"

definition ULONG_MAX :: nat where
  "ULONG_MAX = 2 ^ 64 - 1"

text \<open>\<open>#define VIRTIO_BALLOON_PAGES_PER_PAGE (unsigned)(PAGE_SIZE >> VIRTIO_BALLOON_PFN_SHIFT)\<close>\<close>

definition VIRTIO_BALLOON_PAGES_PER_PAGE :: "config \<Rightarrow> nat" where
  "VIRTIO_BALLOON_PAGES_PER_PAGE cfg =
     (PAGE_SIZE cfg div 2 ^ VIRTIO_BALLOON_PFN_SHIFT cfg) mod 2 ^ 32"

definition VIRTIO_BALLOON_ARRAY_PFNS_MAX :: nat where
  "VIRTIO_BALLOON_ARRAY_PFNS_MAX = 256"

definition PAGE_BMAP_SIZE :: "config \<Rightarrow> nat" where
  "PAGE_BMAP_SIZE cfg = 8 * PAGE_SIZE cfg"

definition PFNS_PER_PAGE_BMAP :: "config \<Rightarrow> nat" where
  "PFNS_PER_PAGE_BMAP cfg = PAGE_BMAP_SIZE cfg * BITS_PER_BYTE"

definition PAGE_BMAP_COUNT_MAX :: nat where
  "PAGE_BMAP_COUNT_MAX = 32"

definition MAX_PAGE_CHUNKS :: nat where
  "MAX_PAGE_CHUNKS = 4096"

text \<open>
  The kernel's \<open>roundup\<close>, \<open>rounddown\<close> and \<open>ALIGN\<close> (the last one for a power
  of two, where it is \<open>roundup\<close>).
\<close>

definition roundup :: "nat \<Rightarrow> nat \<Rightarrow> nat" where
  "roundup x y = ((x + (y - 1)) div y) * y"

definition rounddown :: "nat \<Rightarrow> nat \<Rightarrow> nat" where
  "rounddown x y = x - (x mod y)"

definition ALIGN :: "nat \<Rightarrow> nat \<Rightarrow> nat" where
  "ALIGN x a = ((x + (a - 1)) div a) * a"

text \<open>
  The build this driver compiles for: \<open>BUILD_BUG_ON(PAGE_SHIFT < VIRTIO_BALLOON_PFN_SHIFT)\<close>,
  and a page holds at most as many balloon pages as the pfn array has entries (every
  page size from 4 KiB to 1 MiB with the 4 KiB balloon page).
\<close>

definition config_ok :: "config \<Rightarrow> bool" where
  "config_ok cfg \<longleftrightarrow>
     VIRTIO_BALLOON_PFN_SHIFT cfg \<le> PAGE_SHIFT cfg \<and>
     PAGE_SHIFT cfg - VIRTIO_BALLOON_PFN_SHIFT cfg \<le> 8"

subsection \<open>Pages, queues, buffers\<close>

text \<open>A \<open>struct page\<close> is identified by its page-frame number, \<open>page_to_pfn\<close>.\<close>

type_synonym page = nat

definition page_to_pfn :: "page \<Rightarrow> nat" where
  "page_to_pfn page = page"

datatype vq = inflate_vq | deflate_vq | stats_vq | miscq

datatype chunk_type = PAGE_CHUNK_TYPE_BALLOON | PAGE_CHUNK_TYPE_UNUSED

record virtio_balloon_page_chunk =
  chunk_base :: u64
  chunk_size :: u64

record virtio_balloon_miscq_hdr =
  cmd :: nat
  flags :: nat

text \<open>The command code and the flag of the header, from the device's header file.\<close>

definition VIRTIO_BALLOON_MISCQ_INQUIRE_UNUSED_PAGES :: nat where
  "VIRTIO_BALLOON_MISCQ_INQUIRE_UNUSED_PAGES = 0"

definition VIRTIO_BALLOON_MISCQ_F_COMPLETE :: nat where
  "VIRTIO_BALLOON_MISCQ_F_COMPLETE = 1"

text \<open>What one buffer handed to the host holds.\<close>

datatype payload =
    PfnArray "u32 list"
  | BalloonChunks "virtio_balloon_page_chunk list"
  | UnusedChunks virtio_balloon_miscq_hdr "virtio_balloon_page_chunk list"

datatype wait_mode = Blocking | Busy

text \<open>
  What the driver does to the outside, in program order: a buffer added to a queue and
  kicked, the wait for its acknowledgement, the balloon lock, page references.
\<close>

datatype event =
    Submit vq payload
  | WaitAck vq wait_mode
  | Lock
  | Unlock
  | GetPage page
  | PutPage page

text \<open>
  A bitmap is kept as the list of the indexes of its set bits: \<open>set_bit\<close> adds an
  index, \<open>memset(.., 0, ..)\<close> empties the list.
\<close>

type_synonym bitmap = "nat list"

record virtio_balloon =
  F_BALLOON_CHUNKS :: bool
  F_DEFLATE_ON_OOM :: bool
  num_pages :: u32
  pages :: "page list"
  isolated_pages :: int
  balloon_page_chunk :: "virtio_balloon_page_chunk list"
  miscq_out_hdr :: virtio_balloon_miscq_hdr
  unused_page_chunk :: "virtio_balloon_page_chunk list"
  page_bmap :: "bitmap option list"
  page_bmaps :: nat
  pfn_min :: nat
  pfn_max :: nat
  pfn_start :: nat
  pfn_stop :: nat
  num_pfns :: u32
  pfns :: "u32 list"
  balloon_lock :: bool
  config_num_pages :: u32
  config_actual :: u32
  managed_pages :: int
  allocator :: "page option list"
  bmap_kmalloc :: nat
  broken :: "vq list"
  trace :: "event list"

text \<open>
  The fields, as the source has them:
  \<^item> \<open>F_BALLOON_CHUNKS\<close>, \<open>F_DEFLATE_ON_OOM\<close>: the negotiated feature bits that
    \<open>virtio_has_feature\<close> reads;
  \<^item> \<open>num_pages\<close> (an \<open>unsigned int\<close>) and \<open>pages\<close>, the list
    \<open>vb_dev_info.pages\<close>, head first;
  \<^item> \<open>balloon_page_chunk\<close>, \<open>unused_page_chunk\<close>: the two chunk buffers, each kept
    as the list of its first \<open>hdr->chunks\<close> entries, so that \<open>hdr->chunks\<close> is the
    length of the list;
  \<^item> \<open>page_bmap\<close>: the array of \<open>PAGE_BMAP_COUNT_MAX\<close> bitmap pointers, \<open>None\<close>
    for a pointer that holds no bitmap;
  \<^item> \<open>pfns\<close>: the array of \<open>VIRTIO_BALLOON_ARRAY_PFNS_MAX\<close> entries;
  \<^item> \<open>config_num_pages\<close>, \<open>config_actual\<close>: the two fields of the device's
    configuration space, as the values the device reads and writes.
  The last four fields are the world around the driver:
  \<^item> \<open>allocator\<close>: the answers \<open>alloc_page\<close> will give to the coming calls
    (\<open>None\<close>, or no answer left: no page);
  \<^item> \<open>bmap_kmalloc\<close>: how many more \<open>kmalloc(PAGE_BMAP_SIZE)\<close> succeed;
  \<^item> \<open>broken\<close>: the queues that refuse a buffer (\<open>virtqueue_add_outbuf\<close> fails);
  \<^item> \<open>trace\<close>: the events so far.
\<close>

definition emit :: "event \<Rightarrow> virtio_balloon \<Rightarrow> virtio_balloon" where
  "emit e vb = vb\<lparr>trace := trace vb @ [e]\<rparr>"

text \<open>\<open>page_to_balloon_pfn\<close> returns a \<open>u32\<close>: the product is cut to 32 bits.\<close>

definition page_to_balloon_pfn :: "config \<Rightarrow> page \<Rightarrow> u32" where
  "page_to_balloon_pfn cfg page =
     word_of_nat (page_to_pfn page * VIRTIO_BALLOON_PAGES_PER_PAGE cfg)"

definition init_page_bmap_range :: "virtio_balloon \<Rightarrow> virtio_balloon" where
  "init_page_bmap_range vb = vb\<lparr>pfn_min := ULONG_MAX, pfn_max := 0\<rparr>"

definition update_page_bmap_range :: "config \<Rightarrow> page \<Rightarrow> virtio_balloon \<Rightarrow> virtio_balloon" where
  "update_page_bmap_range cfg page vb =
     (let balloon_pfn = unat (page_to_balloon_pfn cfg page)
      in vb\<lparr>pfn_min := min balloon_pfn (pfn_min vb),
            pfn_max := max balloon_pfn (pfn_max vb)\<rparr>)"

subsection \<open>The chunk buffers\<close>

text \<open>
  Modelled from the spec: the transport (\<open>virtqueue_add_outbuf\<close>, \<open>virtqueue_kick\<close>,
  \<open>virtqueue_get_buf\<close>) is not in the driver file. \<open>submit\<close> fails if the transport
  has been torn down, and the host acknowledges every buffer it was given.
\<close>

definition virtqueue_add_outbuf :: "vq \<Rightarrow> virtio_balloon \<Rightarrow> bool" where
  "virtqueue_add_outbuf q vb \<longleftrightarrow> q \<notin> set (broken vb)"

definition hdr_chunks :: "chunk_type \<Rightarrow> virtio_balloon \<Rightarrow> nat" where
  "hdr_chunks ty vb =
     (case ty of
        PAGE_CHUNK_TYPE_BALLOON \<Rightarrow> length (balloon_page_chunk vb)
      | PAGE_CHUNK_TYPE_UNUSED \<Rightarrow> length (unused_page_chunk vb))"

definition chunk_payload :: "chunk_type \<Rightarrow> virtio_balloon \<Rightarrow> payload" where
  "chunk_payload ty vb =
     (case ty of
        PAGE_CHUNK_TYPE_BALLOON \<Rightarrow> BalloonChunks (balloon_page_chunk vb)
      | PAGE_CHUNK_TYPE_UNUSED \<Rightarrow> UnusedChunks (miscq_out_hdr vb) (unused_page_chunk vb))"

definition reset_chunks :: "chunk_type \<Rightarrow> virtio_balloon \<Rightarrow> virtio_balloon" where
  "reset_chunks ty vb =
     (case ty of
        PAGE_CHUNK_TYPE_BALLOON \<Rightarrow> vb\<lparr>balloon_page_chunk := []\<rparr>
      | PAGE_CHUNK_TYPE_UNUSED \<Rightarrow> vb\<lparr>unused_page_chunk := []\<rparr>)"

definition send_page_chunks ::
  "vq \<Rightarrow> chunk_type \<Rightarrow> bool \<Rightarrow> virtio_balloon \<Rightarrow> virtio_balloon" where
  "send_page_chunks q ty busy_wait vb =
     (if virtqueue_add_outbuf q vb
      then reset_chunks ty
             (emit (WaitAck q (if busy_wait then Busy else Blocking))
                (emit (Submit q (chunk_payload ty vb)) vb))
      else vb)"

definition store_chunk ::
  "chunk_type \<Rightarrow> virtio_balloon_page_chunk \<Rightarrow> virtio_balloon \<Rightarrow> virtio_balloon" where
  "store_chunk ty c vb =
     (case ty of
        PAGE_CHUNK_TYPE_BALLOON \<Rightarrow> vb\<lparr>balloon_page_chunk := balloon_page_chunk vb @ [c]\<rparr>
      | PAGE_CHUNK_TYPE_UNUSED \<Rightarrow> vb\<lparr>unused_page_chunk := unused_page_chunk vb @ [c]\<rparr>)"

text \<open>
  \<open>add_one_chunk\<close> writes entry \<open>hdr->chunks\<close> of a buffer of \<open>MAX_PAGE_CHUNKS\<close>
  entries: with \<open>hdr->chunks\<close> at the capacity the write is past the buffer.
\<close>

definition add_one_chunk ::
  "config \<Rightarrow> vq \<Rightarrow> chunk_type \<Rightarrow> u64 \<Rightarrow> u64 \<Rightarrow> virtio_balloon \<Rightarrow> virtio_balloon option" where
  "add_one_chunk cfg q ty base sz vb =
     (if MAX_PAGE_CHUNKS \<le> hdr_chunks ty vb then None
      else
        let c = \<lparr>chunk_base = push_bit (VIRTIO_BALLOON_CHUNK_BASE_SHIFT cfg) base,
                 chunk_size = push_bit (VIRTIO_BALLOON_CHUNK_SIZE_SHIFT cfg) sz\<rparr>;
            vb1 = store_chunk ty c vb
        in if hdr_chunks ty vb1 = MAX_PAGE_CHUNKS
           then Some (send_page_chunks q ty False vb1)
           else Some vb1)"

subsection \<open>Bitmaps\<close>

text \<open>
  Modelled from the spec: \<open>find_next_bit\<close> and \<open>find_next_zero_bit\<close> are the
  kernel's bit searches (lib/find\_bit.c), used to "find next set bit, then find the
  next unset bit after it". Each returns the index of the first such bit at or after
  \<open>offset\<close> and below \<open>nbits\<close>, and \<open>nbits\<close> when there is none.
\<close>

definition find_next_bit :: "bitmap \<Rightarrow> nat \<Rightarrow> nat \<Rightarrow> nat" where
  "find_next_bit bmap nbits offset = fold min (filter (\<lambda>b. offset \<le> b) bmap) nbits"

function find_next_zero_bit :: "bitmap \<Rightarrow> nat \<Rightarrow> nat \<Rightarrow> nat" where
  "find_next_zero_bit bmap nbits offset =
     (if offset < nbits \<and> offset \<in> set bmap
      then find_next_zero_bit bmap nbits (Suc offset)
      else min offset nbits)"
  by pat_completeness auto
termination
  by (relation "measure (\<lambda>(bmap, nbits, offset). nbits - offset)") auto

declare find_next_zero_bit.simps [simp del]

lemma fold_min_le: "fold min xs (n::nat) \<le> n"
proof (induction xs arbitrary: n)
  case Nil
  show ?case by simp
next
  case (Cons a xs)
  have "fold min xs (min a n) \<le> min a n"
    by (rule Cons.IH)
  then show ?case by simp
qed

lemma fold_min_ge: "\<forall>x \<in> set xs. k \<le> x \<Longrightarrow> k \<le> n \<Longrightarrow> k \<le> fold min xs (n::nat)"
  by (induction xs arbitrary: n) auto

lemma find_next_bit_le: "find_next_bit bmap nbits offset \<le> nbits"
  by (simp add: find_next_bit_def fold_min_le)

lemma find_next_bit_ge: "offset \<le> nbits \<Longrightarrow> offset \<le> find_next_bit bmap nbits offset"
  by (simp add: find_next_bit_def fold_min_ge)

lemma find_next_zero_bit_ge:
  "offset \<le> nbits \<Longrightarrow> offset \<le> find_next_zero_bit bmap nbits offset"
proof (induction bmap nbits offset rule: find_next_zero_bit.induct)
  case (1 bmap nbits offset)
  show ?case
  proof (cases "offset < nbits \<and> offset \<in> set bmap")
    case True
    then have "Suc offset \<le> find_next_zero_bit bmap nbits (Suc offset)"
      using "1.IH" by simp
    with True show ?thesis
      by (subst find_next_zero_bit.simps) simp
  next
    case False
    with "1.prems" show ?thesis
      by (subst find_next_zero_bit.simps) auto
  qed
qed

subsection \<open>The chunk encoder\<close>

function chunking_loop ::
  "config \<Rightarrow> vq \<Rightarrow> nat \<Rightarrow> bitmap \<Rightarrow> nat \<Rightarrow> nat \<Rightarrow> virtio_balloon \<Rightarrow> virtio_balloon option" where
  "chunking_loop cfg q pfn_start' bmap end pos vb =
     (if pos < end then
        (let one = find_next_bit bmap end pos in
         if one < end then
           (let zero = find_next_zero_bit bmap end (one + 1);
                chunk_size = (if zero \<ge> end then end - one else zero - one)
            in case (if chunk_size \<noteq> 0
                     then add_one_chunk cfg q PAGE_CHUNK_TYPE_BALLOON
                            (word_of_nat (pfn_start' + one)) (word_of_nat chunk_size) vb
                     else Some vb) of
                 None \<Rightarrow> None
               | Some vb' \<Rightarrow> chunking_loop cfg q pfn_start' bmap end (one + chunk_size) vb')
         else Some vb)
      else Some vb)"
  by pat_completeness auto
termination
proof (relation "measure (\<lambda>(cfg, q, pfn_start', bmap, end, pos, vb). end - pos)", goal_cases)
  case 1
  show ?case by simp
next
  case (2 cfg q pfn_start' bmap "end" pos vb one zero chunk_size vb')
  have a: "pos \<le> one"
    using 2 find_next_bit_ge [of pos "end" bmap] by simp
  have b: "one + 1 \<le> zero"
    using 2 find_next_zero_bit_ge [of "one + 1" "end" bmap] by simp
  have "0 < chunk_size"
    using 2 b by auto
  with a 2 show ?case by auto
qed

declare chunking_loop.simps [simp del]

definition chunking_pages_from_bmap ::
  "config \<Rightarrow> vq \<Rightarrow> nat \<Rightarrow> bitmap \<Rightarrow> nat \<Rightarrow> virtio_balloon \<Rightarrow> virtio_balloon option" where
  "chunking_pages_from_bmap cfg q pfn_start' bmap len vb =
     chunking_loop cfg q pfn_start' bmap (len * BITS_PER_BYTE) 0 vb"

subsection \<open>Telling the host\<close>

text \<open>
  The chunk branch of \<open>tell_host\<close> walks \<open>page_bmaps\<close> bitmaps, a number it
  computes from \<open>pfn_stop - pfn_start + 1\<close>; \<open>vb->page_bmap[i]\<close> is read whether
  or not a bitmap was allocated there. Balloon pfns are 32-bit values, so none of the
  sums below leaves the range of its C type.
\<close>

fun tell_host_bmaps ::
  "config \<Rightarrow> vq \<Rightarrow> nat \<Rightarrow> nat \<Rightarrow> nat \<Rightarrow> nat list \<Rightarrow> virtio_balloon \<Rightarrow> virtio_balloon option" where
  "tell_host_bmaps cfg q pfn_start' pfns_len page_bmaps' [] vb = Some vb"
| "tell_host_bmaps cfg q pfn_start' pfns_len page_bmaps' (i # is) vb =
     (let bmap_len = (if i + 1 = page_bmaps'
                      then pfns_len - PAGE_BMAP_SIZE cfg * i
                      else PAGE_BMAP_SIZE cfg)
      in if i < length (page_bmap vb) then
           (case page_bmap vb ! i of
              None \<Rightarrow> None
            | Some bmap \<Rightarrow>
                (case chunking_pages_from_bmap cfg q
                        (pfn_start' + i * PFNS_PER_PAGE_BMAP cfg) bmap bmap_len vb of
                   None \<Rightarrow> None
                 | Some vb' \<Rightarrow> tell_host_bmaps cfg q pfn_start' pfns_len page_bmaps' is vb'))
         else None)"

text \<open>
  In the array branch the result of \<open>virtqueue_add_outbuf\<close> is not looked at: on a
  queue that refused the buffer, \<open>wait_event\<close> waits for a buffer that never comes
  back.
\<close>

definition tell_host :: "config \<Rightarrow> vq \<Rightarrow> virtio_balloon \<Rightarrow> virtio_balloon option" where
  "tell_host cfg q vb =
     (if F_BALLOON_CHUNKS vb then
        (let pfn_start' = pfn_start vb;
             pfns0 = pfn_stop vb - pfn_start' + 1;
             pfns' = roundup (roundup pfns0 BITS_PER_LONG) (PFNS_PER_PAGE_BMAP cfg);
             page_bmaps' = pfns' div PFNS_PER_PAGE_BMAP cfg;
             pfns_len = pfns' div BITS_PER_BYTE
         in case tell_host_bmaps cfg q pfn_start' pfns_len page_bmaps' [0..<page_bmaps'] vb of
              None \<Rightarrow> None
            | Some vb' \<Rightarrow>
                Some (if hdr_chunks PAGE_CHUNK_TYPE_BALLOON vb' > 0
                      then send_page_chunks q PAGE_CHUNK_TYPE_BALLOON False vb'
                      else vb'))
      else
        (if virtqueue_add_outbuf q vb
         then Some (emit (WaitAck q Blocking)
                      (emit (Submit q (PfnArray (take (unat (num_pfns vb)) (pfns vb)))) vb))
         else None))"

text \<open>
  \<open>set_page_pfns(vb, vb->pfns + off, page)\<close>: the \<open>VIRTIO_BALLOON_PAGES_PER_PAGE\<close>
  entries from \<open>off\<close> on. A write past the last entry of the array is no result.
\<close>

definition set_page_pfns ::
  "config \<Rightarrow> nat \<Rightarrow> page \<Rightarrow> virtio_balloon \<Rightarrow> virtio_balloon option" where
  "set_page_pfns cfg off page vb =
     (if off + VIRTIO_BALLOON_PAGES_PER_PAGE cfg \<le> length (pfns vb)
      then Some (vb\<lparr>pfns :=
                  fold (\<lambda>i a. a[off + i := page_to_balloon_pfn cfg page + word_of_nat i])
                       [0..<VIRTIO_BALLOON_PAGES_PER_PAGE cfg] (pfns vb)\<rparr>)
      else None)"

subsection \<open>The bitmap pool\<close>

fun extend_loop :: "nat list \<Rightarrow> virtio_balloon \<Rightarrow> virtio_balloon" where
  "extend_loop [] vb = vb"
| "extend_loop (i # is) vb =
     (if 0 < bmap_kmalloc vb
      then extend_loop is
             (vb\<lparr>page_bmap := (page_bmap vb)[i := Some []],
                 page_bmaps := page_bmaps vb + 1,
                 bmap_kmalloc := bmap_kmalloc vb - 1\<rparr>)
      else vb\<lparr>page_bmap := (page_bmap vb)[i := None]\<rparr>)"

definition extend_page_bmap_size :: "config \<Rightarrow> nat \<Rightarrow> virtio_balloon \<Rightarrow> virtio_balloon" where
  "extend_page_bmap_size cfg pfns' vb =
     (let bmap_len0 = ALIGN pfns' BITS_PER_LONG div BITS_PER_BYTE;
          bmap_len = ALIGN bmap_len0 (PAGE_BMAP_SIZE cfg);
          bmaps = min (bmap_len div PAGE_BMAP_SIZE cfg) PAGE_BMAP_COUNT_MAX
      in extend_loop [1..<bmaps] vb)"

definition free_extended_page_bmap :: "virtio_balloon \<Rightarrow> virtio_balloon" where
  "free_extended_page_bmap vb =
     fold (\<lambda>i v. v\<lparr>page_bmap := (page_bmap v)[i := None], page_bmaps := page_bmaps v - 1\<rparr>)
          [1..<page_bmaps vb] vb"

definition clear_page_bmap :: "virtio_balloon \<Rightarrow> virtio_balloon option" where
  "clear_page_bmap vb =
     (if page_bmaps vb \<le> length (page_bmap vb) \<and>
         None \<notin> set (take (page_bmaps vb) (page_bmap vb))
      then Some (vb\<lparr>page_bmap :=
                  replicate (page_bmaps vb) (Some []) @ drop (page_bmaps vb) (page_bmap vb)\<rparr>)
      else None)"

definition set_bit_bmap :: "nat \<Rightarrow> nat \<Rightarrow> virtio_balloon \<Rightarrow> virtio_balloon option" where
  "set_bit_bmap bmap_pos bmap_idx vb =
     (if bmap_idx < length (page_bmap vb) then
        (case page_bmap vb ! bmap_idx of
           None \<Rightarrow> None
         | Some bmap \<Rightarrow> Some (vb\<lparr>page_bmap := (page_bmap vb)[bmap_idx := Some (bmap_pos # bmap)]\<rparr>))
      else None)"

text \<open>The \<open>list_for_each_entry\<close> of \<open>set_page_bmap\<close>, with its flag \<open>found\<close>.\<close>

fun mark_pages ::
  "config \<Rightarrow> nat \<Rightarrow> nat \<Rightarrow> page list \<Rightarrow> bool \<Rightarrow> virtio_balloon \<Rightarrow> (virtio_balloon \<times> bool) option" where
  "mark_pages cfg pfn_start' pfn_stop' [] found vb = Some (vb, found)"
| "mark_pages cfg pfn_start' pfn_stop' (page # ps) found vb =
     (let balloon_pfn = unat (page_to_balloon_pfn cfg page)
      in if balloon_pfn < pfn_start' \<or> balloon_pfn > pfn_stop'
         then mark_pages cfg pfn_start' pfn_stop' ps found vb
         else
           (let bmap_idx = (balloon_pfn - pfn_start') div PFNS_PER_PAGE_BMAP cfg;
                bmap_pos = (balloon_pfn - pfn_start') mod PFNS_PER_PAGE_BMAP cfg
            in case set_bit_bmap bmap_pos bmap_idx vb of
                 None \<Rightarrow> None
               | Some vb' \<Rightarrow> mark_pages cfg pfn_start' pfn_stop' ps True vb'))"

subsection \<open>What a call leaves alone\<close>

text \<open>
  The sending functions change the two chunk buffers and the trace and nothing else.
\<close>

definition only_sends :: "virtio_balloon \<Rightarrow> virtio_balloon \<Rightarrow> bool" where
  "only_sends vb vb' \<longleftrightarrow>
     F_BALLOON_CHUNKS vb' = F_BALLOON_CHUNKS vb \<and>
     F_DEFLATE_ON_OOM vb' = F_DEFLATE_ON_OOM vb \<and>
     num_pages vb' = num_pages vb \<and>
     pages vb' = pages vb \<and>
     isolated_pages vb' = isolated_pages vb \<and>
     miscq_out_hdr vb' = miscq_out_hdr vb \<and>
     page_bmap vb' = page_bmap vb \<and>
     page_bmaps vb' = page_bmaps vb \<and>
     pfn_min vb' = pfn_min vb \<and>
     pfn_max vb' = pfn_max vb \<and>
     pfn_start vb' = pfn_start vb \<and>
     pfn_stop vb' = pfn_stop vb \<and>
     num_pfns vb' = num_pfns vb \<and>
     pfns vb' = pfns vb \<and>
     balloon_lock vb' = balloon_lock vb \<and>
     config_num_pages vb' = config_num_pages vb \<and>
     config_actual vb' = config_actual vb \<and>
     managed_pages vb' = managed_pages vb \<and>
     allocator vb' = allocator vb \<and>
     bmap_kmalloc vb' = bmap_kmalloc vb \<and>
     broken vb' = broken vb"

lemma only_sends_refl: "only_sends vb vb"
  by (simp add: only_sends_def)

lemma only_sends_trans: "only_sends a b \<Longrightarrow> only_sends b c \<Longrightarrow> only_sends a c"
  by (simp add: only_sends_def)

lemma only_sends_emit: "only_sends vb (emit e vb)"
  by (simp add: only_sends_def emit_def)

lemma only_sends_store_chunk: "only_sends vb (store_chunk ty c vb)"
  by (cases ty) (simp_all add: only_sends_def store_chunk_def)

lemma only_sends_reset_chunks: "only_sends vb (reset_chunks ty vb)"
  by (cases ty) (simp_all add: only_sends_def reset_chunks_def)

lemma only_sends_send_page_chunks: "only_sends vb (send_page_chunks q ty busy_wait vb)"
proof (cases "virtqueue_add_outbuf q vb")
  case True
  have "only_sends vb (emit (WaitAck q (if busy_wait then Busy else Blocking))
                (emit (Submit q (chunk_payload ty vb)) vb))"
    by (rule only_sends_trans [OF only_sends_emit only_sends_emit])
  then have "only_sends vb (reset_chunks ty (emit (WaitAck q (if busy_wait then Busy else Blocking))
                (emit (Submit q (chunk_payload ty vb)) vb)))"
    by (rule only_sends_trans [OF _ only_sends_reset_chunks])
  with True show ?thesis by (simp add: send_page_chunks_def)
next
  case False
  then show ?thesis by (simp add: send_page_chunks_def only_sends_refl)
qed

lemma only_sends_add_one_chunk:
  assumes "add_one_chunk cfg q ty base sz vb = Some vb'"
  shows "only_sends vb vb'"
proof -
  let ?c = "\<lparr>chunk_base = push_bit (VIRTIO_BALLOON_CHUNK_BASE_SHIFT cfg) base,
            chunk_size = push_bit (VIRTIO_BALLOON_CHUNK_SIZE_SHIFT cfg) sz\<rparr>"
  let ?vb1 = "store_chunk ty ?c vb"
  have "vb' = send_page_chunks q ty False ?vb1 \<or> vb' = ?vb1"
    using assms unfolding add_one_chunk_def Let_def by (auto split: if_splits)
  moreover have a: "only_sends vb ?vb1"
    by (rule only_sends_store_chunk)
  moreover have "only_sends ?vb1 (send_page_chunks q ty False ?vb1)"
    by (rule only_sends_send_page_chunks)
  ultimately show ?thesis
    using only_sends_trans [of vb ?vb1] by auto
qed

lemma only_sends_chunking_loop:
  "chunking_loop cfg q ps bmap e pos vb = Some vb' \<Longrightarrow> only_sends vb vb'"
proof (induction cfg q ps bmap e pos vb rule: chunking_loop.induct)
  case (1 cfg q ps bmap e pos vb)
  show ?case
  proof (cases "pos < e \<and> find_next_bit bmap e pos < e")
    case False
    with "1.prems" have "vb' = vb"
      by (subst (asm) chunking_loop.simps) (auto simp: Let_def split: if_splits)
    then show ?thesis by (simp add: only_sends_refl)
  next
    case True
    define one where "one = find_next_bit bmap e pos"
    define zero where "zero = find_next_zero_bit bmap e (one + 1)"
    define chunk_size where "chunk_size = (if zero \<ge> e then e - one else zero - one)"
    define r where "r = (if chunk_size \<noteq> 0
                     then add_one_chunk cfg q PAGE_CHUNK_TYPE_BALLOON
                            (word_of_nat (ps + one)) (word_of_nat chunk_size) vb
                     else Some vb)"
    from "1.prems" True obtain vb1 where r: "r = Some vb1"
      and rest: "chunking_loop cfg q ps bmap e (one + chunk_size) vb1 = Some vb'"
      by (subst (asm) chunking_loop.simps)
         (auto simp: Let_def one_def zero_def chunk_size_def r_def split: option.splits if_splits)
    have "only_sends vb vb1"
      using r by (auto simp: r_def only_sends_refl split: if_splits dest: only_sends_add_one_chunk)
    moreover have "only_sends vb1 vb'"
      using "1.IH" [OF _ one_def _ zero_def chunk_size_def _ rest] True r
      by (simp add: one_def r_def)
    ultimately show ?thesis by (rule only_sends_trans)
  qed
qed

lemma only_sends_chunking_pages_from_bmap:
  "chunking_pages_from_bmap cfg q ps bmap len vb = Some vb' \<Longrightarrow> only_sends vb vb'"
  unfolding chunking_pages_from_bmap_def by (rule only_sends_chunking_loop)

lemma only_sends_tell_host_bmaps:
  "tell_host_bmaps cfg q ps pl n is vb = Some vb' \<Longrightarrow> only_sends vb vb'"
proof (induction "is" arbitrary: vb)
  case Nil
  then show ?case by (simp add: only_sends_refl)
next
  case (Cons i "is")
  from Cons.prems obtain bmap vb1 where
    "chunking_pages_from_bmap cfg q (ps + i * PFNS_PER_PAGE_BMAP cfg) bmap
       (if i + 1 = n then pl - PAGE_BMAP_SIZE cfg * i else PAGE_BMAP_SIZE cfg) vb = Some vb1"
    and rest: "tell_host_bmaps cfg q ps pl n is vb1 = Some vb'"
    by (auto simp: Let_def split: if_splits option.splits)
  then have "only_sends vb vb1"
    by (auto dest: only_sends_chunking_pages_from_bmap)
  with Cons.IH [OF rest] show ?case
    by (blast intro: only_sends_trans)
qed

lemma only_sends_tell_host:
  assumes "tell_host cfg q vb = Some vb'"
  shows "only_sends vb vb'"
proof (cases "F_BALLOON_CHUNKS vb")
  case True
  define n where
    "n = roundup (roundup (pfn_stop vb - pfn_start vb + 1) BITS_PER_LONG) (PFNS_PER_PAGE_BMAP cfg)
           div PFNS_PER_PAGE_BMAP cfg"
  from assms True obtain vb1 where
    a: "tell_host_bmaps cfg q (pfn_start vb)
          (roundup (roundup (pfn_stop vb - pfn_start vb + 1) BITS_PER_LONG) (PFNS_PER_PAGE_BMAP cfg)
             div BITS_PER_BYTE) n [0..<n] vb = Some vb1"
    and b: "vb' = (if hdr_chunks PAGE_CHUNK_TYPE_BALLOON vb1 > 0
                   then send_page_chunks inflate_vq PAGE_CHUNK_TYPE_BALLOON False vb1 else vb1)
            \<or> vb' = (if hdr_chunks PAGE_CHUNK_TYPE_BALLOON vb1 > 0
                   then send_page_chunks q PAGE_CHUNK_TYPE_BALLOON False vb1 else vb1)"
    unfolding tell_host_def Let_def n_def by (auto split: option.splits)
  have "only_sends vb vb1"
    using a by (rule only_sends_tell_host_bmaps)
  moreover have "only_sends vb1 vb'"
    using b by (auto simp: only_sends_refl only_sends_send_page_chunks)
  ultimately show ?thesis by (rule only_sends_trans)
next
  case False
  with assms have "vb' = emit (WaitAck q Blocking)
                      (emit (Submit q (PfnArray (take (unat (num_pfns vb)) (pfns vb)))) vb)"
    unfolding tell_host_def by (auto split: if_splits)
  then show ?thesis
    by (simp add: only_sends_trans [OF only_sends_emit only_sends_emit])
qed

text \<open>
  The bitmap functions change the bitmap pool and the pass bounds, and nothing else of
  what the sending functions leave alone.
\<close>

definition only_bmaps :: "virtio_balloon \<Rightarrow> virtio_balloon \<Rightarrow> bool" where
  "only_bmaps vb vb' \<longleftrightarrow>
     F_BALLOON_CHUNKS vb' = F_BALLOON_CHUNKS vb \<and>
     F_DEFLATE_ON_OOM vb' = F_DEFLATE_ON_OOM vb \<and>
     num_pages vb' = num_pages vb \<and>
     pages vb' = pages vb \<and>
     isolated_pages vb' = isolated_pages vb \<and>
     miscq_out_hdr vb' = miscq_out_hdr vb \<and>
     pfn_min vb' = pfn_min vb \<and>
     pfn_max vb' = pfn_max vb \<and>
     num_pfns vb' = num_pfns vb \<and>
     pfns vb' = pfns vb \<and>
     balloon_lock vb' = balloon_lock vb \<and>
     config_num_pages vb' = config_num_pages vb \<and>
     config_actual vb' = config_actual vb \<and>
     managed_pages vb' = managed_pages vb \<and>
     allocator vb' = allocator vb \<and>
     broken vb' = broken vb"

lemma only_bmaps_refl: "only_bmaps vb vb"
  by (simp add: only_bmaps_def)

lemma only_bmaps_trans: "only_bmaps a b \<Longrightarrow> only_bmaps b c \<Longrightarrow> only_bmaps a c"
  by (simp add: only_bmaps_def)

lemma only_sends_bmaps: "only_sends vb vb' \<Longrightarrow> only_bmaps vb vb'"
  by (simp add: only_sends_def only_bmaps_def)

lemma only_bmaps_clear_page_bmap: "clear_page_bmap vb = Some vb' \<Longrightarrow> only_bmaps vb vb'"
  by (auto simp: clear_page_bmap_def only_bmaps_def split: if_splits)

lemma only_bmaps_set_bit_bmap: "set_bit_bmap pos idx vb = Some vb' \<Longrightarrow> only_bmaps vb vb'"
  by (auto simp: set_bit_bmap_def only_bmaps_def split: if_splits option.splits)

lemma only_bmaps_mark_pages:
  "mark_pages cfg a b ps found vb = Some (vb', found') \<Longrightarrow> only_bmaps vb vb'"
proof (induction ps arbitrary: vb found)
  case Nil
  then show ?case by (simp add: only_bmaps_refl)
next
  case (Cons p ps)
  show ?case
  proof (cases "unat (page_to_balloon_pfn cfg p) < a \<or> unat (page_to_balloon_pfn cfg p) > b")
    case True
    with Cons.prems have "mark_pages cfg a b ps found vb = Some (vb', found')"
      by (simp add: Let_def)
    then show ?thesis by (rule Cons.IH)
  next
    case False
    with Cons.prems obtain vb1 where
      s: "set_bit_bmap ((unat (page_to_balloon_pfn cfg p) - a) mod PFNS_PER_PAGE_BMAP cfg)
            ((unat (page_to_balloon_pfn cfg p) - a) div PFNS_PER_PAGE_BMAP cfg) vb = Some vb1"
      and rest: "mark_pages cfg a b ps True vb1 = Some (vb', found')"
      by (auto simp: Let_def split: option.splits)
    from only_bmaps_set_bit_bmap [OF s] Cons.IH [OF rest] show ?thesis
      by (rule only_bmaps_trans)
  qed
qed

lemma only_bmaps_extend_loop: "only_bmaps vb (extend_loop is vb)"
proof (induction "is" arbitrary: vb)
  case Nil
  show ?case by (simp add: only_bmaps_refl)
next
  case (Cons i "is")
  show ?case
  proof (cases "0 < bmap_kmalloc vb")
    case True
    have "only_bmaps vb (vb\<lparr>page_bmap := (page_bmap vb)[i := Some []],
                 page_bmaps := page_bmaps vb + 1,
                 bmap_kmalloc := bmap_kmalloc vb - 1\<rparr>)"
      by (simp add: only_bmaps_def)
    from only_bmaps_trans [OF this Cons.IH] True show ?thesis by simp
  next
    case False
    then show ?thesis by (simp add: only_bmaps_def)
  qed
qed

lemma only_bmaps_extend_page_bmap_size: "only_bmaps vb (extend_page_bmap_size cfg n vb)"
  by (simp add: extend_page_bmap_size_def Let_def only_bmaps_extend_loop)

lemma only_bmaps_fold_free:
  "only_bmaps vb
     (fold (\<lambda>i v. v\<lparr>page_bmap := (page_bmap v)[i := None], page_bmaps := page_bmaps v - 1\<rparr>) is vb)"
proof (induction "is" arbitrary: vb)
  case Nil
  show ?case by (simp add: only_bmaps_refl)
next
  case (Cons i "is")
  have "only_bmaps vb (vb\<lparr>page_bmap := (page_bmap vb)[i := None], page_bmaps := page_bmaps vb - 1\<rparr>)"
    by (simp add: only_bmaps_def)
  from only_bmaps_trans [OF this Cons.IH] show ?case by simp
qed

lemma only_bmaps_free_extended_page_bmap: "only_bmaps vb (free_extended_page_bmap vb)"
  unfolding free_extended_page_bmap_def by (rule only_bmaps_fold_free)

subsection \<open>The passes over the pfn range\<close>

text \<open>
  The loop of \<open>set_page_bmap\<close>. With no bitmap in the pool \<open>pfn_stop\<close> is
  \<open>pfn_start\<close> and the C loop does not advance: no result.
\<close>

function set_page_bmap_loop ::
  "config \<Rightarrow> page list \<Rightarrow> vq \<Rightarrow> nat \<Rightarrow> virtio_balloon \<Rightarrow> virtio_balloon option" where
  "set_page_bmap_loop cfg pgs q pfn_start' vb =
     (if pfn_start' < pfn_max vb then
        (let pfn_stop0 = pfn_start' + PFNS_PER_PAGE_BMAP cfg * page_bmaps vb;
             pfn_stop' = (if pfn_stop0 < pfn_max vb then pfn_stop0 else pfn_max vb)
         in if pfn_stop' \<le> pfn_start' then None
            else
              (case clear_page_bmap (vb\<lparr>pfn_start := pfn_start'\<rparr>) of
                 None \<Rightarrow> None
               | Some vb1 \<Rightarrow>
                   (case mark_pages cfg pfn_start' pfn_stop' pgs False vb1 of
                      None \<Rightarrow> None
                    | Some (vb2, found) \<Rightarrow>
                        (case (if found then tell_host cfg q (vb2\<lparr>pfn_stop := pfn_stop'\<rparr>)
                               else Some vb2) of
                           None \<Rightarrow> None
                         | Some vb3 \<Rightarrow> set_page_bmap_loop cfg pgs q pfn_stop' vb3))))
      else Some vb)"
  by pat_completeness auto
termination
proof (relation "measure (\<lambda>(cfg, pgs, q, pfn_start', vb). pfn_max vb - pfn_start')", goal_cases)
  case 1
  show ?case by simp
next
  case (2 cfg pgs q pfn_start' vb pfn_stop0 pfn_stop' vb1 x vb2 found vb3)
  have "only_bmaps (vb\<lparr>pfn_start := pfn_start'\<rparr>) vb1"
    using 2 by (auto dest: only_bmaps_clear_page_bmap)
  moreover have "only_bmaps vb1 vb2"
    using 2 by (auto dest: only_bmaps_mark_pages)
  moreover have "only_bmaps (vb2\<lparr>pfn_stop := pfn_stop'\<rparr>) vb3 \<or> vb3 = vb2"
    using 2 by (auto split: if_splits dest: only_sends_tell_host only_sends_bmaps)
  ultimately have "pfn_max vb3 = pfn_max vb"
    by (auto simp: only_bmaps_def)
  with 2 show ?case by auto
qed

declare set_page_bmap_loop.simps [simp del]

definition set_page_bmap :: "config \<Rightarrow> page list \<Rightarrow> vq \<Rightarrow> virtio_balloon \<Rightarrow> virtio_balloon option" where
  "set_page_bmap cfg pgs q vb =
     (let vb1 = vb\<lparr>pfn_min := rounddown (pfn_min vb) BITS_PER_LONG\<rparr>;
          vb2 = vb1\<lparr>pfn_max := roundup (pfn_max vb1) BITS_PER_LONG\<rparr>;
          vb3 = extend_page_bmap_size cfg
                  ((pfn_max vb2 + 2 ^ 64 - pfn_min vb2 + 1) mod 2 ^ 64) vb2
      in case set_page_bmap_loop cfg pgs q (pfn_min vb3) vb3 of
           None \<Rightarrow> None
         | Some vb4 \<Rightarrow> Some (free_extended_page_bmap vb4))"

subsection \<open>The ledger\<close>

text \<open>
  Modelled from the spec: \<open>balloon_page_enqueue\<close> and \<open>balloon_page_dequeue\<close>
  (mm/balloon\_compaction.c) are not in the driver file. The first asks the allocator
  for one page (\<open>allocate_one_page() -> Page | Exhausted\<close>) and puts the page it got
  on the ledger's list; the second takes a page off the list, in a fixed order (here
  the head of the list, where the first one inserts), and gives none when the list is
  empty.
\<close>

definition balloon_page_enqueue :: "virtio_balloon \<Rightarrow> page option \<times> virtio_balloon" where
  "balloon_page_enqueue vb =
     (case allocator vb of
        [] \<Rightarrow> (None, vb)
      | None # rest \<Rightarrow> (None, vb\<lparr>allocator := rest\<rparr>)
      | Some page # rest \<Rightarrow> (Some page, vb\<lparr>allocator := rest, pages := page # pages vb\<rparr>))"

definition balloon_page_dequeue :: "virtio_balloon \<Rightarrow> page option \<times> virtio_balloon" where
  "balloon_page_dequeue vb =
     (case pages vb of
        [] \<Rightarrow> (None, vb)
      | page # rest \<Rightarrow> (Some page, vb\<lparr>pages := rest\<rparr>))"

text \<open>\<open>adjust_managed_page_count(page, n)\<close>, kept as the sum of its arguments.\<close>

definition adjust_managed_page_count :: "int \<Rightarrow> virtio_balloon \<Rightarrow> virtio_balloon" where
  "adjust_managed_page_count n vb = vb\<lparr>managed_pages := managed_pages vb + n\<rparr>"

text \<open>
  The \<open>for\<close> loop of \<open>fill_balloon\<close>: \<open>fill_step\<close> is its body after a
  page was got, with the increment of \<open>num_pfns\<close>; \<open>fill_loop\<close> is the loop from
  the test \<open>vb->num_pfns < num\<close> on. \<open>num\<close> is a \<open>size_t\<close>, \<open>num_pfns\<close> and
  \<open>num_pages\<close> are 32-bit counters.
\<close>

definition fill_step :: "config \<Rightarrow> page \<Rightarrow> virtio_balloon \<Rightarrow> virtio_balloon option" where
  "fill_step cfg page vb1 =
     (case (if F_BALLOON_CHUNKS vb1
            then Some (update_page_bmap_range cfg page vb1)
            else set_page_pfns cfg (unat (num_pfns vb1)) page vb1) of
        None \<Rightarrow> None
      | Some vb2 \<Rightarrow>
          (let vb3 = vb2\<lparr>num_pages :=
                       num_pages vb2 + word_of_nat (VIRTIO_BALLOON_PAGES_PER_PAGE cfg)\<rparr>;
               vb4 = (if \<not> F_DEFLATE_ON_OOM vb3
                      then adjust_managed_page_count (- 1) vb3 else vb3)
           in Some (vb4\<lparr>num_pfns :=
                      num_pfns vb4 + word_of_nat (VIRTIO_BALLOON_PAGES_PER_PAGE cfg)\<rparr>)))"

lemma fill_step_allocator: "fill_step cfg page vb = Some vb' \<Longrightarrow> allocator vb' = allocator vb"
  by (auto simp: fill_step_def update_page_bmap_range_def Let_def set_page_pfns_def
        adjust_managed_page_count_def split: if_splits option.splits)

function fill_loop :: "config \<Rightarrow> nat \<Rightarrow> virtio_balloon \<Rightarrow> virtio_balloon option" where
  "fill_loop cfg num vb =
     (if unat (num_pfns vb) < num then
        (case balloon_page_enqueue vb of
           (None, vb1) \<Rightarrow> Some vb1
         | (Some page, vb1) \<Rightarrow>
             (case fill_step cfg page vb1 of
                None \<Rightarrow> None
              | Some vb2 \<Rightarrow> fill_loop cfg num vb2))
      else Some vb)"
  by pat_completeness auto
termination
proof (relation "measure (\<lambda>(cfg, num, vb). length (allocator vb))", goal_cases)
  case 1
  show ?case by simp
next
  case (2 cfg num vb x vb1 page vb2)
  have "length (allocator vb1) < length (allocator vb)"
    using 2 by (auto simp: balloon_page_enqueue_def split: list.splits option.splits)
  moreover have "allocator vb2 = allocator vb1"
    using 2 by (auto dest: fill_step_allocator)
  ultimately show ?case by simp
qed

declare fill_loop.simps [simp del]

text \<open>
  \<open>mutex_lock\<close> on a lock that is held does not return in a run of one thread.
\<close>

definition mutex_lock :: "virtio_balloon \<Rightarrow> virtio_balloon option" where
  "mutex_lock vb = (if balloon_lock vb then None else Some (emit Lock (vb\<lparr>balloon_lock := True\<rparr>)))"

definition mutex_unlock :: "virtio_balloon \<Rightarrow> virtio_balloon" where
  "mutex_unlock vb = emit Unlock (vb\<lparr>balloon_lock := False\<rparr>)"

definition fill_balloon :: "config \<Rightarrow> nat \<Rightarrow> virtio_balloon \<Rightarrow> (virtio_balloon \<times> u32) option" where
  "fill_balloon cfg num vb =
     (let chunking = F_BALLOON_CHUNKS vb;
          vb1 = (if chunking then init_page_bmap_range vb else vb);
          num1 = (if chunking then num else min num VIRTIO_BALLOON_ARRAY_PFNS_MAX)
      in case mutex_lock vb1 of
           None \<Rightarrow> None
         | Some vb2 \<Rightarrow>
             (case fill_loop cfg num1 (vb2\<lparr>num_pfns := 0\<rparr>) of
                None \<Rightarrow> None
              | Some vb3 \<Rightarrow>
                  (let num_allocated_pages = num_pfns vb3
                   in case (if num_pfns vb3 \<noteq> 0
                            then (if chunking
                                  then set_page_bmap cfg (pages vb3) inflate_vq vb3
                                  else tell_host cfg inflate_vq vb3)
                            else Some vb3) of
                        None \<Rightarrow> None
                      | Some vb4 \<Rightarrow> Some (mutex_unlock vb4, num_allocated_pages))))"

text \<open>\<open>release_pages_balloon\<close>: every page of the local list, from its head.\<close>

fun release_pages_balloon :: "page list \<Rightarrow> virtio_balloon \<Rightarrow> virtio_balloon" where
  "release_pages_balloon [] vb = vb"
| "release_pages_balloon (page # ps) vb =
     release_pages_balloon ps
       (emit (PutPage page)
          (if \<not> F_DEFLATE_ON_OOM vb then adjust_managed_page_count 1 vb else vb))"

text \<open>
  The \<open>for\<close> loop of \<open>leak_balloon\<close>: \<open>leak_step\<close> is its body after a page
  was taken off the ledger, with the increment of \<open>num_pfns\<close> (\<open>set_page_pfns\<close> is
  called once for every page and once more on the array path). \<open>lpages\<close> is the local
  list \<open>pages\<close>, which \<open>list_add\<close> grows at its head.
\<close>

definition leak_step :: "config \<Rightarrow> page \<Rightarrow> virtio_balloon \<Rightarrow> virtio_balloon option" where
  "leak_step cfg page vb1 =
     (case set_page_pfns cfg (unat (num_pfns vb1)) page vb1 of
        None \<Rightarrow> None
      | Some vb2 \<Rightarrow>
          (case (if F_BALLOON_CHUNKS vb2
                 then Some (update_page_bmap_range cfg page vb2)
                 else set_page_pfns cfg (unat (num_pfns vb2)) page vb2) of
             None \<Rightarrow> None
           | Some vb3 \<Rightarrow>
               (let vb4 = vb3\<lparr>num_pages :=
                            num_pages vb3 - word_of_nat (VIRTIO_BALLOON_PAGES_PER_PAGE cfg)\<rparr>
                in Some (vb4\<lparr>num_pfns :=
                           num_pfns vb4 + word_of_nat (VIRTIO_BALLOON_PAGES_PER_PAGE cfg)\<rparr>))))"

lemma leak_step_pages: "leak_step cfg page vb = Some vb' \<Longrightarrow> pages vb' = pages vb"
  by (auto simp: leak_step_def update_page_bmap_range_def Let_def set_page_pfns_def
        split: if_splits option.splits)

function leak_loop ::
  "config \<Rightarrow> nat \<Rightarrow> page list \<Rightarrow> virtio_balloon \<Rightarrow> (virtio_balloon \<times> page list) option" where
  "leak_loop cfg num lpages vb =
     (if unat (num_pfns vb) < num then
        (case balloon_page_dequeue vb of
           (None, vb1) \<Rightarrow> Some (vb1, lpages)
         | (Some page, vb1) \<Rightarrow>
             (case leak_step cfg page vb1 of
                None \<Rightarrow> None
              | Some vb2 \<Rightarrow> leak_loop cfg num (page # lpages) vb2))
      else Some (vb, lpages))"
  by pat_completeness auto
termination
proof (relation "measure (\<lambda>(cfg, num, lpages, vb). length (pages vb))", goal_cases)
  case 1
  show ?case by simp
next
  case (2 cfg num lpages vb x vb1 page vb2)
  have "length (pages vb1) < length (pages vb)"
    using 2 by (auto simp: balloon_page_dequeue_def split: list.splits)
  moreover have "pages vb2 = pages vb1"
    using 2 by (auto dest: leak_step_pages)
  ultimately show ?case by simp
qed

declare leak_loop.simps [simp del]

definition leak_balloon :: "config \<Rightarrow> nat \<Rightarrow> virtio_balloon \<Rightarrow> (virtio_balloon \<times> u32) option" where
  "leak_balloon cfg num vb =
     (let chunking = F_BALLOON_CHUNKS vb;
          vb1 = (if chunking then init_page_bmap_range vb else vb);
          num1 = (if chunking then num else min num VIRTIO_BALLOON_ARRAY_PFNS_MAX);
          num2 = min num1 VIRTIO_BALLOON_ARRAY_PFNS_MAX
      in case mutex_lock vb1 of
           None \<Rightarrow> None
         | Some vb2 \<Rightarrow>
             (let num3 = min num2 (unat (num_pages vb2))
              in case leak_loop cfg num3 [] (vb2\<lparr>num_pfns := 0\<rparr>) of
                   None \<Rightarrow> None
                 | Some (vb3, lpages) \<Rightarrow>
                     (let num_freed_pages = num_pfns vb3
                      in case (if num_pfns vb3 \<noteq> 0
                               then (if chunking
                                     then set_page_bmap cfg lpages deflate_vq vb3
                                     else tell_host cfg deflate_vq vb3)
                               else Some vb3) of
                           None \<Rightarrow> None
                         | Some vb4 \<Rightarrow>
                             Some (mutex_unlock (release_pages_balloon lpages vb4),
                                   num_freed_pages))))"

subsection \<open>Size negotiation\<close>

text \<open>
  \<open>towards_target\<close>: the target read from the configuration space minus
  \<open>num_pages\<close>, both 32-bit values, as an \<open>s64\<close>. The byte swaps of the legacy
  configuration space are between the same values and are left out.
\<close>

definition towards_target :: "virtio_balloon \<Rightarrow> int" where
  "towards_target vb = uint (config_num_pages vb) - uint (num_pages vb)"

definition update_balloon_size :: "virtio_balloon \<Rightarrow> virtio_balloon" where
  "update_balloon_size vb = vb\<lparr>config_actual := num_pages vb\<rparr>"

text \<open>
  \<open>update_balloon_size_func\<close>; the second component of the result says whether
  \<open>queue_work\<close> was called.
\<close>

definition update_balloon_size_func ::
  "config \<Rightarrow> virtio_balloon \<Rightarrow> (virtio_balloon \<times> bool) option" where
  "update_balloon_size_func cfg vb =
     (let diff = towards_target vb
      in case (if diff > 0 then
                 (case fill_balloon cfg (nat diff) vb of
                    None \<Rightarrow> None
                  | Some (vb1, n) \<Rightarrow> Some (vb1, diff - uint n))
               else if diff < 0 then
                 (case leak_balloon cfg (nat (- diff)) vb of
                    None \<Rightarrow> None
                  | Some (vb1, n) \<Rightarrow> Some (vb1, diff + uint n))
               else Some (vb, diff)) of
           None \<Rightarrow> None
         | Some (vb1, diff1) \<Rightarrow> Some (update_balloon_size vb1, diff1 \<noteq> 0))"

subsection \<open>The unused-page inquiry\<close>

text \<open>A loop body that may fail, run over a list.\<close>

fun fold_opt :: "('a \<Rightarrow> 's \<Rightarrow> 's option) \<Rightarrow> 'a list \<Rightarrow> 's \<Rightarrow> 's option" where
  "fold_opt f [] s = Some s"
| "fold_opt f (x # xs) s = (case f x s of None \<Rightarrow> None | Some s' \<Rightarrow> fold_opt f xs s')"

text \<open>
  Modelled from the spec: \<open>inquire_unused_page_block\<close> (mm/page\_alloc.c) is not in
  the driver file. Asked again and again for "one free block of this order/type", it
  gives the blocks of that free list one after the other and then none. The free lists
  are the parameter \<open>free_list zone order migratetype\<close>, the populated zones the
  parameter \<open>zones\<close>. \<open>(u64)(1 << order)\<close> is \<open>2 ^ order\<close> for the orders below
  \<open>MAX_ORDER\<close>.
\<close>

definition inquire_loop ::
  "config \<Rightarrow> nat \<Rightarrow> page list \<Rightarrow> virtio_balloon \<Rightarrow> virtio_balloon option" where
  "inquire_loop cfg order blocks vb =
     fold_opt (\<lambda>page. add_one_chunk cfg miscq PAGE_CHUNK_TYPE_UNUSED
                         (word_of_nat (page_to_pfn page)) (word_of_nat (2 ^ order)))
       blocks vb"

definition miscq_send_unused_pages ::
  "config \<Rightarrow> nat list \<Rightarrow> (nat \<Rightarrow> nat \<Rightarrow> nat \<Rightarrow> page list) \<Rightarrow> virtio_balloon \<Rightarrow> virtio_balloon option" where
  "miscq_send_unused_pages cfg zones free_list vb =
     (let vb1 = vb\<lparr>miscq_out_hdr :=
                   \<lparr>cmd = VIRTIO_BALLOON_MISCQ_INQUIRE_UNUSED_PAGES, flags = 0\<rparr>\<rparr>
      in case fold_opt
                (\<lambda>zone. fold_opt
                   (\<lambda>order. fold_opt
                      (\<lambda>migratetype. inquire_loop cfg order (free_list zone order migratetype))
                      [0..<MIGRATE_TYPES cfg])
                   (rev [1..<MAX_ORDER cfg]))
                zones vb1 of
           None \<Rightarrow> None
         | Some vb2 \<Rightarrow>
             (let vb3 = vb2\<lparr>miscq_out_hdr := (miscq_out_hdr vb2)
                          \<lparr>flags := or (flags (miscq_out_hdr vb2)) VIRTIO_BALLOON_MISCQ_F_COMPLETE\<rparr>\<rparr>
              in Some (send_page_chunks miscq PAGE_CHUNK_TYPE_UNUSED True vb3)))"

subsection \<open>Page migration\<close>

definition tell_host_one_page :: "config \<Rightarrow> vq \<Rightarrow> page \<Rightarrow> virtio_balloon \<Rightarrow> virtio_balloon option" where
  "tell_host_one_page cfg q page vb =
     add_one_chunk cfg q PAGE_CHUNK_TYPE_BALLOON (word_of_nat (page_to_pfn page)) 1 vb"

datatype migrate_result = EAGAIN | MIGRATEPAGE_SUCCESS

text \<open>
  Modelled from the spec: \<open>balloon_page_insert\<close> and \<open>balloon_page_delete\<close>
  (linux/balloon\_compaction.h) are not in the driver file. The first inserts the page
  into the ledger's collection, the second removes the page from the ledger's
  bookkeeping (an isolated page is not on the list; a page that is, leaves it).
\<close>

definition balloon_page_insert :: "page \<Rightarrow> virtio_balloon \<Rightarrow> virtio_balloon" where
  "balloon_page_insert page vb = vb\<lparr>pages := page # pages vb\<rparr>"

definition balloon_page_delete :: "page \<Rightarrow> virtio_balloon \<Rightarrow> virtio_balloon" where
  "balloon_page_delete page vb = vb\<lparr>pages := remove1 page (pages vb)\<rparr>"

text \<open>One of the two steps of the swap: tell the host about one page on one queue.\<close>

definition migrate_tell :: "config \<Rightarrow> vq \<Rightarrow> page \<Rightarrow> virtio_balloon \<Rightarrow> virtio_balloon option" where
  "migrate_tell cfg q page vb =
     (if F_BALLOON_CHUNKS vb then tell_host_one_page cfg q page vb
      else
        (case set_page_pfns cfg 0 page
                (vb\<lparr>num_pfns := word_of_nat (VIRTIO_BALLOON_PAGES_PER_PAGE cfg)\<rparr>) of
           None \<Rightarrow> None
         | Some vb1 \<Rightarrow> tell_host cfg q vb1))"

definition virtballoon_migratepage ::
  "config \<Rightarrow> page \<Rightarrow> page \<Rightarrow> virtio_balloon \<Rightarrow> (virtio_balloon \<times> migrate_result) option" where
  "virtballoon_migratepage cfg newpage page vb =
     (if balloon_lock vb then Some (vb, EAGAIN)
      else
        (let vb1 = emit Lock (vb\<lparr>balloon_lock := True\<rparr>);
             vb2 = emit (GetPage newpage) vb1;
             vb3 = balloon_page_insert newpage vb2;
             vb4 = vb3\<lparr>isolated_pages := isolated_pages vb3 - 1\<rparr>
         in case migrate_tell cfg inflate_vq newpage vb4 of
              None \<Rightarrow> None
            | Some vb5 \<Rightarrow>
                (case migrate_tell cfg deflate_vq page (balloon_page_delete page vb5) of
                   None \<Rightarrow> None
                 | Some vb6 \<Rightarrow>
                     Some (emit (PutPage page) (mutex_unlock vb6), MIGRATEPAGE_SUCCESS))))"

subsection \<open>The device after probing, and runs of calls\<close>

text \<open>
  \<open>virtballoon_probe\<close> with \<open>balloon_page_chunk_init\<close>: an empty ledger, empty
  chunk buffers, one bitmap in the pool. The arguments are the negotiated features and
  the world around the driver.
\<close>

definition virtballoon_probe ::
  "bool \<Rightarrow> bool \<Rightarrow> u32 \<Rightarrow> page option list \<Rightarrow> nat \<Rightarrow> vq list \<Rightarrow> virtio_balloon" where
  "virtballoon_probe chunks deflate_on_oom target alloc kmallocs brk =
     \<lparr>F_BALLOON_CHUNKS = chunks,
      F_DEFLATE_ON_OOM = deflate_on_oom,
      num_pages = 0,
      pages = [],
      isolated_pages = 0,
      balloon_page_chunk = [],
      miscq_out_hdr = \<lparr>cmd = 0, flags = 0\<rparr>,
      unused_page_chunk = [],
      page_bmap = Some [] # replicate (PAGE_BMAP_COUNT_MAX - 1) None,
      page_bmaps = 1,
      pfn_min = 0,
      pfn_max = 0,
      pfn_start = 0,
      pfn_stop = 0,
      num_pfns = 0,
      pfns = replicate VIRTIO_BALLOON_ARRAY_PFNS_MAX 0,
      balloon_lock = False,
      config_num_pages = target,
      config_actual = 0,
      managed_pages = 0,
      allocator = alloc,
      bmap_kmalloc = kmallocs,
      broken = brk,
      trace = []\<rparr>"

datatype call = Grow nat | Shrink nat

fun run :: "config \<Rightarrow> call list \<Rightarrow> virtio_balloon \<Rightarrow> virtio_balloon option" where
  "run cfg [] vb = Some vb"
| "run cfg (Grow n # cs) vb =
     (case fill_balloon cfg n vb of None \<Rightarrow> None | Some (vb', r) \<Rightarrow> run cfg cs vb')"
| "run cfg (Shrink n # cs) vb =
     (case leak_balloon cfg n vb of None \<Rightarrow> None | Some (vb', r) \<Rightarrow> run cfg cs vb')"

subsection \<open>What the ledger functions leave alone\<close>

lemma only_bmaps_set_page_bmap_loop:
  "set_page_bmap_loop cfg pgs q ps vb = Some vb' \<Longrightarrow> only_bmaps vb vb'"
proof (induction cfg pgs q ps vb rule: set_page_bmap_loop.induct)
  case (1 cfg pgs q ps vb)
  show ?case
  proof (cases "ps < pfn_max vb")
    case False
    with "1.prems" have "vb' = vb"
      by (subst (asm) set_page_bmap_loop.simps) simp
    then show ?thesis by (simp add: only_bmaps_refl)
  next
    case True
    define stop0 where "stop0 = ps + PFNS_PER_PAGE_BMAP cfg * page_bmaps vb"
    define stop where "stop = (if stop0 < pfn_max vb then stop0 else pfn_max vb)"
    from "1.prems" True obtain vb1 vb2 found vb3 where
      prog: "\<not> stop \<le> ps"
      and c: "clear_page_bmap (vb\<lparr>pfn_start := ps\<rparr>) = Some vb1"
      and m: "mark_pages cfg ps stop pgs False vb1 = Some (vb2, found)"
      and t: "(if found then tell_host cfg q (vb2\<lparr>pfn_stop := stop\<rparr>) else Some vb2) = Some vb3"
      and rest: "set_page_bmap_loop cfg pgs q stop vb3 = Some vb'"
      by (subst (asm) set_page_bmap_loop.simps)
         (auto simp: Let_def stop0_def stop_def split: option.splits if_splits prod.splits)
    have "only_bmaps vb (vb\<lparr>pfn_start := ps\<rparr>)"
      by (simp add: only_bmaps_def)
    moreover have "only_bmaps (vb\<lparr>pfn_start := ps\<rparr>) vb1"
      using c by (rule only_bmaps_clear_page_bmap)
    moreover have "only_bmaps vb1 vb2"
      using m by (rule only_bmaps_mark_pages)
    moreover have "only_bmaps vb2 vb3"
    proof (cases found)
      case True
      with t have "only_bmaps (vb2\<lparr>pfn_stop := stop\<rparr>) vb3"
        by (auto dest: only_sends_tell_host only_sends_bmaps)
      moreover have "only_bmaps vb2 (vb2\<lparr>pfn_stop := stop\<rparr>)"
        by (simp add: only_bmaps_def)
      ultimately show ?thesis by (blast intro: only_bmaps_trans)
    next
      case False
      with t show ?thesis by (simp add: only_bmaps_refl)
    qed
    moreover have "only_bmaps vb3 vb'"
      by (rule "1.IH" [OF True stop0_def stop_def prog c m refl t rest])
    ultimately show ?thesis
      by (blast intro: only_bmaps_trans)
  qed
qed

text \<open>The fields that neither of the two ways of telling the host touches.\<close>

definition same_ledger :: "virtio_balloon \<Rightarrow> virtio_balloon \<Rightarrow> bool" where
  "same_ledger vb vb' \<longleftrightarrow>
     F_BALLOON_CHUNKS vb' = F_BALLOON_CHUNKS vb \<and>
     F_DEFLATE_ON_OOM vb' = F_DEFLATE_ON_OOM vb \<and>
     num_pages vb' = num_pages vb \<and>
     pages vb' = pages vb \<and>
     isolated_pages vb' = isolated_pages vb \<and>
     num_pfns vb' = num_pfns vb \<and>
     pfns vb' = pfns vb \<and>
     balloon_lock vb' = balloon_lock vb \<and>
     config_num_pages vb' = config_num_pages vb \<and>
     config_actual vb' = config_actual vb \<and>
     managed_pages vb' = managed_pages vb \<and>
     allocator vb' = allocator vb \<and>
     broken vb' = broken vb"

lemma same_ledger_set_page_bmap:
  assumes "set_page_bmap cfg pgs q vb = Some vb'"
  shows "same_ledger vb vb'"
proof -
  define vb2 where
    "vb2 = vb\<lparr>pfn_min := rounddown (pfn_min vb) BITS_PER_LONG,
              pfn_max := roundup (pfn_max vb) BITS_PER_LONG\<rparr>"
  define vb3 where
    "vb3 = extend_page_bmap_size cfg ((pfn_max vb2 + 2 ^ 64 - pfn_min vb2 + 1) mod 2 ^ 64) vb2"
  from assms obtain vb4 where
    l: "set_page_bmap_loop cfg pgs q (pfn_min vb3) vb3 = Some vb4"
    and e: "vb' = free_extended_page_bmap vb4"
    unfolding set_page_bmap_def Let_def vb2_def vb3_def
    by (auto split: option.splits)
  have "only_bmaps vb2 vb3"
    unfolding vb3_def by (rule only_bmaps_extend_page_bmap_size)
  moreover have "only_bmaps vb3 vb4"
    using l by (rule only_bmaps_set_page_bmap_loop)
  moreover have "only_bmaps vb4 vb'"
    unfolding e by (rule only_bmaps_free_extended_page_bmap)
  ultimately have "only_bmaps vb2 vb'"
    by (blast intro: only_bmaps_trans)
  then show ?thesis
    by (simp add: only_bmaps_def same_ledger_def vb2_def)
qed

lemma same_ledger_tell_host: "tell_host cfg q vb = Some vb' \<Longrightarrow> same_ledger vb vb'"
  by (drule only_sends_tell_host) (simp add: only_sends_def same_ledger_def)

subsection \<open>Invariants of the two loops\<close>

lemma fill_loop_rule:
  assumes "fill_loop cfg num vb = Some vb'"
    and "P vb"
    and "\<And>v v1. P v \<Longrightarrow> balloon_page_enqueue v = (None, v1) \<Longrightarrow> P v1"
    and "\<And>v page v1 v2. P v \<Longrightarrow> unat (num_pfns v) < num \<Longrightarrow>
           balloon_page_enqueue v = (Some page, v1) \<Longrightarrow> fill_step cfg page v1 = Some v2 \<Longrightarrow> P v2"
  shows "P vb'"
  using assms
proof (induction cfg num vb rule: fill_loop.induct)
  case (1 cfg num vb)
  show ?case
  proof (cases "unat (num_pfns vb) < num")
    case False
    with "1.prems"(1,2) show ?thesis
      by (subst (asm) fill_loop.simps) simp
  next
    case True
    obtain r vb1 where e: "balloon_page_enqueue vb = (r, vb1)"
      by (cases "balloon_page_enqueue vb")
    show ?thesis
    proof (cases r)
      case None
      with "1.prems"(1) True e have "vb' = vb1"
        by (subst (asm) fill_loop.simps) simp
      with "1.prems"(3) [OF "1.prems"(2)] e None show ?thesis by simp
    next
      case (Some page)
      with "1.prems"(1) True e obtain vb2 where
        s: "fill_step cfg page vb1 = Some vb2" and rest: "fill_loop cfg num vb2 = Some vb'"
        by (subst (asm) fill_loop.simps) (auto split: option.splits)
      have "P vb2"
        using "1.prems"(4) [OF "1.prems"(2) True] e Some s by simp
      with "1.IH" [OF True e [symmetric] _ s rest _ "1.prems"(3,4)] Some show ?thesis by simp
    qed
  qed
qed

lemma leak_loop_rule:
  assumes "leak_loop cfg num lp vb = Some (vb', lp')"
    and "P lp vb"
    and "\<And>v l page v1 v2. P l v \<Longrightarrow> unat (num_pfns v) < num \<Longrightarrow>
           balloon_page_dequeue v = (Some page, v1) \<Longrightarrow> leak_step cfg page v1 = Some v2 \<Longrightarrow>
           P (page # l) v2"
  shows "P lp' vb'"
  using assms
proof (induction cfg num lp vb rule: leak_loop.induct)
  case (1 cfg num lp vb)
  show ?case
  proof (cases "unat (num_pfns vb) < num")
    case False
    with "1.prems"(1,2) show ?thesis
      by (subst (asm) leak_loop.simps) simp
  next
    case True
    obtain r vb1 where e: "balloon_page_dequeue vb = (r, vb1)"
      by (cases "balloon_page_dequeue vb")
    show ?thesis
    proof (cases r)
      case None
      with e have "vb1 = vb"
        by (auto simp: balloon_page_dequeue_def split: list.splits)
      with "1.prems"(1,2) True e None show ?thesis
        by (subst (asm) leak_loop.simps) simp
    next
      case (Some page)
      with "1.prems"(1) True e obtain vb2 where
        s: "leak_step cfg page vb1 = Some vb2"
        and rest: "leak_loop cfg num (page # lp) vb2 = Some (vb', lp')"
        by (subst (asm) leak_loop.simps) (auto split: option.splits)
      have "P (page # lp) vb2"
        using "1.prems"(3) [OF "1.prems"(2) True] e Some s by simp
      with "1.IH" [OF True e [symmetric] _ s rest _ "1.prems"(3)] Some show ?thesis by simp
    qed
  qed
qed

subsection \<open>The counter and the list of the ledger\<close>

definition ledger_ok :: "config \<Rightarrow> virtio_balloon \<Rightarrow> bool" where
  "ledger_ok cfg vb \<longleftrightarrow>
     num_pages vb = word_of_nat (VIRTIO_BALLOON_PAGES_PER_PAGE cfg * length (pages vb))"

lemma fill_step_ledger:
  "fill_step cfg page vb = Some vb' \<Longrightarrow>
     pages vb' = pages vb \<and>
     num_pages vb' = num_pages vb + word_of_nat (VIRTIO_BALLOON_PAGES_PER_PAGE cfg)"
  by (auto simp: fill_step_def update_page_bmap_range_def Let_def set_page_pfns_def
        adjust_managed_page_count_def split: if_splits option.splits)

lemma leak_step_ledger:
  "leak_step cfg page vb = Some vb' \<Longrightarrow>
     pages vb' = pages vb \<and>
     num_pages vb' = num_pages vb - word_of_nat (VIRTIO_BALLOON_PAGES_PER_PAGE cfg)"
  by (auto simp: leak_step_def update_page_bmap_range_def Let_def set_page_pfns_def
        split: if_splits option.splits)

lemma enqueue_ledger:
  "balloon_page_enqueue vb = (r, vb') \<Longrightarrow>
     num_pages vb' = num_pages vb \<and>
     pages vb' = (case r of None \<Rightarrow> pages vb | Some page \<Rightarrow> page # pages vb)"
  by (auto simp: balloon_page_enqueue_def split: list.splits option.splits)

lemma dequeue_ledger:
  "balloon_page_dequeue vb = (Some page, vb') \<Longrightarrow>
     num_pages vb' = num_pages vb \<and> pages vb = page # pages vb'"
  by (auto simp: balloon_page_dequeue_def split: list.splits)

lemma ledger_ok_fill_loop:
  assumes "fill_loop cfg num vb = Some vb'" and "ledger_ok cfg vb"
  shows "ledger_ok cfg vb'"
proof (rule fill_loop_rule [OF assms(1), where P = "ledger_ok cfg"])
  show "ledger_ok cfg vb" by (rule assms(2))
next
  fix v v1
  assume "ledger_ok cfg v" "balloon_page_enqueue v = (None, v1)"
  then show "ledger_ok cfg v1"
    by (auto simp: ledger_ok_def dest: enqueue_ledger)
next
  fix v page v1 v2
  assume "ledger_ok cfg v" "balloon_page_enqueue v = (Some page, v1)"
    "fill_step cfg page v1 = Some v2"
  then show "ledger_ok cfg v2"
    by (auto simp: ledger_ok_def algebra_simps dest!: enqueue_ledger fill_step_ledger)
qed

lemma ledger_ok_leak_loop:
  assumes "leak_loop cfg num lp vb = Some (vb', lp')" and "ledger_ok cfg vb"
  shows "ledger_ok cfg vb'"
proof (rule leak_loop_rule [OF assms(1), where P = "\<lambda>l. ledger_ok cfg"])
  show "ledger_ok cfg vb" by (rule assms(2))
next
  fix v page v1 v2
  assume "ledger_ok cfg v" "balloon_page_dequeue v = (Some page, v1)"
    "leak_step cfg page v1 = Some v2"
  then show "ledger_ok cfg v2"
    by (auto simp: ledger_ok_def algebra_simps dest!: dequeue_ledger leak_step_ledger)
qed

lemma ledger_ok_same: "same_ledger vb vb' \<Longrightarrow> ledger_ok cfg vb \<Longrightarrow> ledger_ok cfg vb'"
  by (simp add: same_ledger_def ledger_ok_def)

lemma release_pages_balloon_ledger:
  "num_pages (release_pages_balloon ps vb) = num_pages vb \<and>
   pages (release_pages_balloon ps vb) = pages vb"
  by (induction ps arbitrary: vb) (simp_all add: emit_def adjust_managed_page_count_def)

lemma ledger_ok_fill_balloon:
  assumes "fill_balloon cfg num vb = Some (vb', r)" and "ledger_ok cfg vb"
  shows "ledger_ok cfg vb'"
proof -
  define vb1 where "vb1 = (if F_BALLOON_CHUNKS vb then init_page_bmap_range vb else vb)"
  define num1 where "num1 = (if F_BALLOON_CHUNKS vb then num else min num VIRTIO_BALLOON_ARRAY_PFNS_MAX)"
  from assms(1) obtain vb2 vb3 vb4 where
    l: "mutex_lock vb1 = Some vb2"
    and f: "fill_loop cfg num1 (vb2\<lparr>num_pfns := 0\<rparr>) = Some vb3"
    and t: "(if num_pfns vb3 \<noteq> 0
             then (if F_BALLOON_CHUNKS vb then set_page_bmap cfg (pages vb3) inflate_vq vb3
                   else tell_host cfg inflate_vq vb3)
             else Some vb3) = Some vb4"
    and u: "vb' = mutex_unlock vb4"
    unfolding fill_balloon_def Let_def vb1_def num1_def
    by (auto split: option.splits)
  have "ledger_ok cfg vb1"
    using assms(2) by (simp add: vb1_def ledger_ok_def init_page_bmap_range_def)
  with l have "ledger_ok cfg (vb2\<lparr>num_pfns := 0\<rparr>)"
    by (auto simp: mutex_lock_def ledger_ok_def emit_def split: if_splits)
  with f have "ledger_ok cfg vb3"
    by (rule ledger_ok_fill_loop)
  moreover have "same_ledger vb3 vb4"
    using t by (auto simp: same_ledger_def split: if_splits
                  dest: same_ledger_set_page_bmap same_ledger_tell_host)
  ultimately have "ledger_ok cfg vb4"
    by (simp add: ledger_ok_same)
  then show ?thesis
    by (simp add: u mutex_unlock_def emit_def ledger_ok_def)
qed

lemma ledger_ok_leak_balloon:
  assumes "leak_balloon cfg num vb = Some (vb', r)" and "ledger_ok cfg vb"
  shows "ledger_ok cfg vb'"
proof -
  define vb1 where "vb1 = (if F_BALLOON_CHUNKS vb then init_page_bmap_range vb else vb)"
  from assms(1) obtain vb2 num3 vb3 lp vb4 where
    l: "mutex_lock vb1 = Some vb2"
    and f: "leak_loop cfg num3 [] (vb2\<lparr>num_pfns := 0\<rparr>) = Some (vb3, lp)"
    and t: "(if num_pfns vb3 \<noteq> 0
             then (if F_BALLOON_CHUNKS vb then set_page_bmap cfg lp deflate_vq vb3
                   else tell_host cfg deflate_vq vb3)
             else Some vb3) = Some vb4"
    and u: "vb' = mutex_unlock (release_pages_balloon lp vb4)"
    unfolding leak_balloon_def Let_def vb1_def
    by (auto split: option.splits)
  have "ledger_ok cfg vb1"
    using assms(2) by (simp add: vb1_def ledger_ok_def init_page_bmap_range_def)
  with l have "ledger_ok cfg (vb2\<lparr>num_pfns := 0\<rparr>)"
    by (auto simp: mutex_lock_def ledger_ok_def emit_def split: if_splits)
  with f have "ledger_ok cfg vb3"
    by (rule ledger_ok_leak_loop)
  moreover have "same_ledger vb3 vb4"
    using t by (auto simp: same_ledger_def split: if_splits
                  dest: same_ledger_set_page_bmap same_ledger_tell_host)
  ultimately have "ledger_ok cfg vb4"
    by (simp add: ledger_ok_same)
  then show ?thesis
    by (simp add: u mutex_unlock_def emit_def ledger_ok_def release_pages_balloon_ledger)
qed

lemma ledger_ok_run: "run cfg cs vb = Some vb' \<Longrightarrow> ledger_ok cfg vb \<Longrightarrow> ledger_ok cfg vb'"
proof (induction cs arbitrary: vb)
  case Nil
  then show ?case by simp
next
  case (Cons c cs)
  show ?case
  proof (cases c)
    case (Grow n)
    with Cons.prems obtain vb1 r where
      "fill_balloon cfg n vb = Some (vb1, r)" "run cfg cs vb1 = Some vb'"
      by (auto split: option.splits)
    with Cons.IH Cons.prems(2) show ?thesis
      by (blast intro: ledger_ok_fill_balloon)
  next
    case (Shrink n)
    with Cons.prems obtain vb1 r where
      "leak_balloon cfg n vb = Some (vb1, r)" "run cfg cs vb1 = Some vb'"
      by (auto split: option.splits)
    with Cons.IH Cons.prems(2) show ?thesis
      by (blast intro: ledger_ok_leak_balloon)
  qed
qed

subsection \<open>Two builds\<close>

text \<open>
  4 KiB pages with the 4 KiB balloon page (one balloon page per page), and 64 KiB pages
  (sixteen balloon pages per page).
\<close>

definition cfg_4k :: config where
  "cfg_4k =
     \<lparr>PAGE_SHIFT = 12, VIRTIO_BALLOON_PFN_SHIFT = 12, VIRTIO_BALLOON_CHUNK_BASE_SHIFT = 12,
      VIRTIO_BALLOON_CHUNK_SIZE_SHIFT = 12, MAX_ORDER = 11, MIGRATE_TYPES = 6\<rparr>"

definition cfg_64k :: config where
  "cfg_64k =
     \<lparr>PAGE_SHIFT = 16, VIRTIO_BALLOON_PFN_SHIFT = 12, VIRTIO_BALLOON_CHUNK_BASE_SHIFT = 12,
      VIRTIO_BALLOON_CHUNK_SIZE_SHIFT = 12, MAX_ORDER = 11, MIGRATE_TYPES = 6\<rparr>"

lemma pages_per_page_4k: "VIRTIO_BALLOON_PAGES_PER_PAGE cfg_4k = 1"
  by (simp add: VIRTIO_BALLOON_PAGES_PER_PAGE_def cfg_4k_def PAGE_SIZE_def)

lemma pages_per_page_64k: "VIRTIO_BALLOON_PAGES_PER_PAGE cfg_64k = 16"
  by (simp add: VIRTIO_BALLOON_PAGES_PER_PAGE_def cfg_64k_def PAGE_SIZE_def)

lemma config_ok_4k: "config_ok cfg_4k"
  by (simp add: config_ok_def cfg_4k_def)

lemma config_ok_64k: "config_ok cfg_64k"
  by (simp add: config_ok_def cfg_64k_def)

text \<open>The definitions a run on the array path unfolds to.\<close>

lemmas array_path_defs =
  fill_balloon_def leak_balloon_def virtballoon_probe_def mutex_lock_def mutex_unlock_def
  fill_loop.simps leak_loop.simps fill_step_def leak_step_def balloon_page_enqueue_def
  balloon_page_dequeue_def set_page_pfns_def tell_host_def virtqueue_add_outbuf_def emit_def
  adjust_managed_page_count_def VIRTIO_BALLOON_ARRAY_PFNS_MAX_def Let_def

section \<open>The ledger invariant\<close>

text \<open>
  C1. In every state that a sequence of grow (\<open>fill_balloon\<close>) and shrink
  (\<open>leak_balloon\<close>) calls produces from the probed device, the counter \<open>num_pages\<close>
  is \<open>VIRTIO_BALLOON_PAGES_PER_PAGE\<close> times the number of pages on the ledger's
  list. The counter is an \<open>unsigned int\<close>: the equation holds in its 32-bit arithmetic,
  and between the numbers themselves as long as the product fits the counter.
\<close>

theorem ledger_counter_invariant:
  assumes "run cfg calls (virtballoon_probe chunks deflate_on_oom target alloc kmallocs brk) = Some vb"
  shows "num_pages vb = word_of_nat (VIRTIO_BALLOON_PAGES_PER_PAGE cfg * length (pages vb)) \<and>
         (VIRTIO_BALLOON_PAGES_PER_PAGE cfg * length (pages vb) < 2 ^ 32 \<longrightarrow>
            unat (num_pages vb) = VIRTIO_BALLOON_PAGES_PER_PAGE cfg * length (pages vb))"
proof -
  have "ledger_ok cfg (virtballoon_probe chunks deflate_on_oom target alloc kmallocs brk)"
    by (simp add: ledger_ok_def virtballoon_probe_def)
  with assms have "ledger_ok cfg vb"
    by (rule ledger_ok_run)
  then have eq: "num_pages vb = word_of_nat (VIRTIO_BALLOON_PAGES_PER_PAGE cfg * length (pages vb))"
    by (simp add: ledger_ok_def)
  moreover have "unat (num_pages vb) = VIRTIO_BALLOON_PAGES_PER_PAGE cfg * length (pages vb)"
    if "VIRTIO_BALLOON_PAGES_PER_PAGE cfg * length (pages vb) < 2 ^ 32"
    using that of_nat_inverse [OF eq [symmetric]] by simp
  ultimately show ?thesis by blast
qed

theorem ledger_counter_invariant_witness:
  "\<exists>vb. run cfg_4k [Grow 2, Shrink 1]
          (virtballoon_probe False False 2 [Some 7, Some 9] 0 []) = Some vb \<and>
        pages vb = [7] \<and>
        unat (num_pages vb) = VIRTIO_BALLOON_PAGES_PER_PAGE cfg_4k * length (pages vb)"
proof -
  have "\<exists>vb. run cfg_4k [Grow 2, Shrink 1]
          (virtballoon_probe False False 2 [Some 7, Some 9] 0 []) = Some vb \<and> pages vb = [7]"
    by (simp add: array_path_defs pages_per_page_4k)
  then obtain vb where
    r: "run cfg_4k [Grow 2, Shrink 1] (virtballoon_probe False False 2 [Some 7, Some 9] 0 []) = Some vb"
    and p: "pages vb = [7]"
    by blast
  from ledger_counter_invariant [OF r] p
  have "unat (num_pages vb) = VIRTIO_BALLOON_PAGES_PER_PAGE cfg_4k * length (pages vb)"
    by (simp add: pages_per_page_4k)
  with r p show ?thesis by blast
qed

section \<open>The deflate batch\<close>

lemma pages_per_page_pow:
  assumes "config_ok cfg"
  shows "VIRTIO_BALLOON_PAGES_PER_PAGE cfg = 2 ^ (PAGE_SHIFT cfg - VIRTIO_BALLOON_PFN_SHIFT cfg)"
proof -
  let ?j = "PAGE_SHIFT cfg - VIRTIO_BALLOON_PFN_SHIFT cfg"
  have le: "VIRTIO_BALLOON_PFN_SHIFT cfg \<le> PAGE_SHIFT cfg" and j: "?j \<le> 8"
    using assms by (simp_all add: config_ok_def)
  have "(2::nat) ^ PAGE_SHIFT cfg div 2 ^ VIRTIO_BALLOON_PFN_SHIFT cfg = 2 ^ ?j"
    using le by (simp add: power_diff)
  moreover have "(2::nat) ^ ?j \<le> 2 ^ 8"
    using j by (rule power_increasing) simp
  ultimately show ?thesis
    by (simp add: VIRTIO_BALLOON_PAGES_PER_PAGE_def PAGE_SIZE_def)
qed

lemma pages_per_page_dvd:
  assumes "config_ok cfg"
  shows "VIRTIO_BALLOON_PAGES_PER_PAGE cfg dvd 256" and "0 < VIRTIO_BALLOON_PAGES_PER_PAGE cfg"
proof -
  have "PAGE_SHIFT cfg - VIRTIO_BALLOON_PFN_SHIFT cfg \<le> 8"
    using assms by (simp add: config_ok_def)
  then have "(2::nat) ^ (PAGE_SHIFT cfg - VIRTIO_BALLOON_PFN_SHIFT cfg) dvd 2 ^ 8"
    by (rule le_imp_power_dvd)
  then show "VIRTIO_BALLOON_PAGES_PER_PAGE cfg dvd 256"
    by (simp add: pages_per_page_pow [OF assms])
  show "0 < VIRTIO_BALLOON_PAGES_PER_PAGE cfg"
    by (simp add: pages_per_page_pow [OF assms])
qed

text \<open>One more group of entries fits the array as long as the count is below 256.\<close>

lemma next_group_fits:
  assumes "k dvd (256::nat)" and "k * n < 256"
  shows "k * Suc n \<le> 256"
proof -
  from assms(1) obtain m where m: "256 = k * m" by (auto simp: dvd_def)
  have "k * n < k * m"
    by (simp only: m [symmetric] assms(2))
  then have "Suc n \<le> m" by simp
  then have "k * Suc n \<le> k * m" by (rule mult_le_mono2)
  then show ?thesis by (simp only: m)
qed

text \<open>The balloon pfns of one page, as \<open>set_page_pfns\<close> writes them.\<close>

definition page_pfns :: "config \<Rightarrow> page \<Rightarrow> u32 list" where
  "page_pfns cfg page =
     map (\<lambda>i. page_to_balloon_pfn cfg page + word_of_nat i) [0..<VIRTIO_BALLOON_PAGES_PER_PAGE cfg]"

lemma length_page_pfns: "length (page_pfns cfg page) = VIRTIO_BALLOON_PAGES_PER_PAGE cfg"
  by (simp add: page_pfns_def)

lemma fold_list_update_append:
  "off + n \<le> length xs \<Longrightarrow>
     fold (\<lambda>i a. a[off + i := f i]) [0..<n] xs = take off xs @ map f [0..<n] @ drop (off + n) xs"
proof (induction n)
  case 0
  show ?case by simp
next
  case (Suc n)
  then have IH: "fold (\<lambda>i a. a[off + i := f i]) [0..<n] xs
                   = take off xs @ map f [0..<n] @ drop (off + n) xs"
    by simp
  have d: "drop (off + n) xs = xs ! (off + n) # drop (Suc (off + n)) xs"
    using Suc.prems by (simp add: Cons_nth_drop_Suc)
  have "fold (\<lambda>i a. a[off + i := f i]) [0..<Suc n] xs
          = (take off xs @ map f [0..<n] @ drop (off + n) xs)[off + n := f n]"
    by (simp add: IH)
  also have "\<dots> = take off xs @ map f [0..<n] @ (drop (off + n) xs)[0 := f n]"
    using Suc.prems by (simp add: list_update_append)
  also have "\<dots> = take off xs @ map f [0..<Suc n] @ drop (off + Suc n) xs"
    by (subst d) simp
  finally show ?case .
qed

lemma set_page_pfns_Some:
  assumes "set_page_pfns cfg off page vb = Some vb'"
  shows "off + VIRTIO_BALLOON_PAGES_PER_PAGE cfg \<le> length (pfns vb)"
    and "vb' = vb\<lparr>pfns := take off (pfns vb) @ page_pfns cfg page @
                          drop (off + VIRTIO_BALLOON_PAGES_PER_PAGE cfg) (pfns vb)\<rparr>"
proof -
  show le: "off + VIRTIO_BALLOON_PAGES_PER_PAGE cfg \<le> length (pfns vb)"
    using assms by (simp add: set_page_pfns_def split: if_splits)
  show "vb' = vb\<lparr>pfns := take off (pfns vb) @ page_pfns cfg page @
                          drop (off + VIRTIO_BALLOON_PAGES_PER_PAGE cfg) (pfns vb)\<rparr>"
    using assms le
    by (simp add: set_page_pfns_def page_pfns_def fold_list_update_append split: if_splits)
qed

text \<open>
  The second call of \<open>set_page_pfns\<close> for the same page at the same place writes what
  is there already.
\<close>

lemma set_page_pfns_twice:
  assumes "set_page_pfns cfg off page vb = Some vb'"
  shows "set_page_pfns cfg off page vb' = Some vb'"
proof -
  note s = set_page_pfns_Some [OF assms]
  have len: "length (pfns vb') = length (pfns vb)"
    using s by (simp add: length_page_pfns)
  have "fold (\<lambda>i a. a[off + i := page_to_balloon_pfn cfg page + word_of_nat i])
          [0..<VIRTIO_BALLOON_PAGES_PER_PAGE cfg] (pfns vb') = pfns vb'"
    using s len by (simp add: fold_list_update_append page_pfns_def)
  then show ?thesis
    using s(1) len by (simp add: set_page_pfns_def)
qed

text \<open>
  The body of the deflate loop with one call of \<open>set_page_pfns\<close> for a page (the
  "fill once" reading), and the body of the source, which are the same function.
\<close>

definition leak_step_once :: "config \<Rightarrow> page \<Rightarrow> virtio_balloon \<Rightarrow> virtio_balloon option" where
  "leak_step_once cfg page vb1 =
     (case set_page_pfns cfg (unat (num_pfns vb1)) page vb1 of
        None \<Rightarrow> None
      | Some vb2 \<Rightarrow>
          (let vb3 = (if F_BALLOON_CHUNKS vb2 then update_page_bmap_range cfg page vb2 else vb2);
               vb4 = vb3\<lparr>num_pages :=
                            num_pages vb3 - word_of_nat (VIRTIO_BALLOON_PAGES_PER_PAGE cfg)\<rparr>
           in Some (vb4\<lparr>num_pfns :=
                      num_pfns vb4 + word_of_nat (VIRTIO_BALLOON_PAGES_PER_PAGE cfg)\<rparr>)))"

lemma leak_step_fill_once: "leak_step cfg page vb = leak_step_once cfg page vb"
proof (cases "set_page_pfns cfg (unat (num_pfns vb)) page vb")
  case None
  then show ?thesis by (simp add: leak_step_def leak_step_once_def)
next
  case (Some vb2)
  have n: "num_pfns vb2 = num_pfns vb" and c: "F_BALLOON_CHUNKS vb2 = F_BALLOON_CHUNKS vb"
    using set_page_pfns_Some(2) [OF Some] by simp_all
  have "set_page_pfns cfg (unat (num_pfns vb2)) page vb2 = Some vb2"
    unfolding n by (rule set_page_pfns_twice [OF Some])
  with Some show ?thesis
    by (simp add: leak_step_def leak_step_once_def Let_def)
qed

text \<open>
  What holds after every round of the deflate loop, \<open>v0\<close> being the state the loop
  starts in and \<open>l\<close> the local list: the pages of \<open>l\<close> left the ledger in the order
  \<open>rev l\<close>, and the array holds their balloon pfns in that order.
\<close>

definition leak_inv :: "config \<Rightarrow> virtio_balloon \<Rightarrow> page list \<Rightarrow> virtio_balloon \<Rightarrow> bool" where
  "leak_inv cfg v0 l v \<longleftrightarrow>
     num_pfns v = word_of_nat (VIRTIO_BALLOON_PAGES_PER_PAGE cfg * length l) \<and>
     VIRTIO_BALLOON_PAGES_PER_PAGE cfg * length l \<le> 256 \<and>
     pages v0 = rev l @ pages v \<and>
     num_pages v = num_pages v0 - word_of_nat (VIRTIO_BALLOON_PAGES_PER_PAGE cfg * length l) \<and>
     VIRTIO_BALLOON_PAGES_PER_PAGE cfg * length l \<le> length (pfns v) \<and>
     take (VIRTIO_BALLOON_PAGES_PER_PAGE cfg * length l) (pfns v)
       = concat (map (page_pfns cfg) (rev l)) \<and>
     F_BALLOON_CHUNKS v = F_BALLOON_CHUNKS v0 \<and>
     F_DEFLATE_ON_OOM v = F_DEFLATE_ON_OOM v0 \<and>
     trace v = trace v0 \<and>
     broken v = broken v0"

lemma unat_small: "n \<le> 256 \<Longrightarrow> unat (word_of_nat n :: u32) = n"
  by (simp add: unat_of_nat)

lemma leak_inv_step:
  assumes ok: "config_ok cfg"
    and inv: "leak_inv cfg v0 l v"
    and lt: "unat (num_pfns v) < num" and num: "num \<le> 256"
    and deq: "balloon_page_dequeue v = (Some page, v1)"
    and step: "leak_step cfg page v1 = Some v2"
  shows "leak_inv cfg v0 (page # l) v2"
proof -
  let ?K = "VIRTIO_BALLOON_PAGES_PER_PAGE cfg"
  let ?off = "?K * length l"
  have "num_pfns v = word_of_nat ?off" and "?off \<le> 256"
    using inv by (simp_all add: leak_inv_def del: of_nat_mult)
  then have off: "unat (num_pfns v) = ?off"
    by (simp only: unat_small)
  have fits: "?K * Suc (length l) \<le> 256"
    using pages_per_page_dvd(1) [OF ok] lt num off by (intro next_group_fits) simp_all
  from deq obtain rest where pv: "pages v = page # rest" and v1: "v1 = v\<lparr>pages := rest\<rparr>"
    by (auto simp: balloon_page_dequeue_def split: list.splits)
  from step obtain vb2 where
    s: "set_page_pfns cfg ?off page v1 = Some vb2"
    and v2: "v2 = (if F_BALLOON_CHUNKS vb2 then update_page_bmap_range cfg page vb2 else vb2)
               \<lparr>num_pages := num_pages vb2 - word_of_nat ?K,
                 num_pfns := num_pfns vb2 + word_of_nat ?K\<rparr>"
    using off
    by (auto simp: leak_step_fill_once leak_step_once_def v1 Let_def update_page_bmap_range_def
          split: option.splits)
  note sp = set_page_pfns_Some [OF s]
  have le: "?off + ?K \<le> length (pfns v)"
    using sp(1) by (simp add: v1)
  have pf: "pfns v2 = take ?off (pfns v) @ page_pfns cfg page @ drop (?off + ?K) (pfns v)"
    by (simp add: v2 sp(2) v1 update_page_bmap_range_def Let_def)
  have tk: "take (?K * Suc (length l)) (pfns v2)
              = take ?off (pfns v) @ page_pfns cfg page"
    using le by (simp add: pf length_page_pfns)
  have a: "num_pfns v2 = word_of_nat (?K * length (page # l))"
    using inv by (simp add: v2 sp(2) v1 leak_inv_def update_page_bmap_range_def Let_def algebra_simps)
  have b: "num_pages v2 = num_pages v0 - word_of_nat (?K * length (page # l))"
    using inv by (simp add: v2 sp(2) v1 leak_inv_def update_page_bmap_range_def Let_def algebra_simps)
  have c: "pages v0 = rev (page # l) @ pages v2"
    using inv pv by (simp add: v2 sp(2) v1 leak_inv_def update_page_bmap_range_def Let_def)
  have d: "take (?K * length (page # l)) (pfns v2) = concat (map (page_pfns cfg) (rev (page # l)))"
    using inv tk by (simp add: leak_inv_def)
  have e: "?K * length (page # l) \<le> length (pfns v2)"
    using le by (simp add: pf length_page_pfns)
  have f: "F_BALLOON_CHUNKS v2 = F_BALLOON_CHUNKS v0 \<and> F_DEFLATE_ON_OOM v2 = F_DEFLATE_ON_OOM v0 \<and>
           trace v2 = trace v0 \<and> broken v2 = broken v0"
    using inv by (simp add: v2 sp(2) v1 leak_inv_def update_page_bmap_range_def Let_def)
  show ?thesis
    unfolding leak_inv_def using a b c d e f fits by simp
qed

lemma leak_inv_loop:
  assumes "config_ok cfg" and "leak_loop cfg num [] vb = Some (vb', lp)"
    and "num \<le> 256" and "num_pfns vb = 0"
  shows "leak_inv cfg vb lp vb'"
proof (rule leak_loop_rule [OF assms(2), where P = "leak_inv cfg vb"])
  show "leak_inv cfg vb [] vb"
    using assms(4) by (simp add: leak_inv_def)
next
  fix v l page v1 v2
  assume "leak_inv cfg vb l v" "unat (num_pfns v) < num"
    "balloon_page_dequeue v = (Some page, v1)" "leak_step cfg page v1 = Some v2"
  with assms(1,3) show "leak_inv cfg vb (page # l) v2"
    by (blast intro: leak_inv_step)
qed

lemma release_pages_balloon_frame:
  "pages (release_pages_balloon ps vb) = pages vb \<and>
   num_pages (release_pages_balloon ps vb) = num_pages vb \<and>
   pfns (release_pages_balloon ps vb) = pfns vb \<and>
   num_pfns (release_pages_balloon ps vb) = num_pfns vb \<and>
   trace (release_pages_balloon ps vb) = trace vb @ map PutPage ps"
  by (induction ps arbitrary: vb) (simp_all add: emit_def adjust_managed_page_count_def)

text \<open>A call of \<open>leak_balloon\<close> that returns, taken apart.\<close>

lemma leak_balloon_parts:
  assumes ok: "config_ok cfg" and run: "leak_balloon cfg num vb = Some (vb', r)"
  obtains lp vb3 vb4 where
    "leak_inv cfg (vb\<lparr>trace := trace vb @ [Lock]\<rparr>) lp vb3"
    and "r = num_pfns vb3"
    and "(if num_pfns vb3 \<noteq> 0
          then (if F_BALLOON_CHUNKS vb then set_page_bmap cfg lp deflate_vq vb3
                else tell_host cfg deflate_vq vb3)
          else Some vb3) = Some vb4"
    and "vb' = mutex_unlock (release_pages_balloon lp vb4)"
proof -
  define vb1 where "vb1 = (if F_BALLOON_CHUNKS vb then init_page_bmap_range vb else vb)"
  from run obtain vb2 vb3 lp vb4 where
    l: "mutex_lock vb1 = Some vb2"
    and f: "leak_loop cfg
              (min (min (if F_BALLOON_CHUNKS vb then num else min num 256) 256)
                 (unat (num_pages vb2)))
              [] (vb2\<lparr>num_pfns := 0\<rparr>) = Some (vb3, lp)"
    and r: "r = num_pfns vb3"
    and t: "(if num_pfns vb3 \<noteq> 0
             then (if F_BALLOON_CHUNKS vb then set_page_bmap cfg lp deflate_vq vb3
                   else tell_host cfg deflate_vq vb3)
             else Some vb3) = Some vb4"
    and u: "vb' = mutex_unlock (release_pages_balloon lp vb4)"
    unfolding leak_balloon_def Let_def vb1_def VIRTIO_BALLOON_ARRAY_PFNS_MAX_def
    by (auto split: option.splits)
  have n3: "min (min (if F_BALLOON_CHUNKS vb then num else min num 256) 256)
              (unat (num_pages vb2)) \<le> 256"
    by simp
  have inv: "leak_inv cfg (vb2\<lparr>num_pfns := 0\<rparr>) lp vb3"
    using ok f n3 by (rule leak_inv_loop) simp
  have "leak_inv cfg (vb\<lparr>trace := trace vb @ [Lock]\<rparr>) lp vb3"
    using inv l
    by (auto simp: leak_inv_def mutex_lock_def emit_def vb1_def init_page_bmap_range_def
          split: if_splits)
  with r t u that show ?thesis by blast
qed

text \<open>The constants of the two builds, and the definitions a run on the chunk path unfolds to.\<close>

lemma cfg_4k_simps:
  "VIRTIO_BALLOON_PAGES_PER_PAGE cfg_4k = 1"
  "PAGE_BMAP_SIZE cfg_4k = 32768"
  "PFNS_PER_PAGE_BMAP cfg_4k = 262144"
  "VIRTIO_BALLOON_CHUNK_BASE_SHIFT cfg_4k = 12"
  "VIRTIO_BALLOON_CHUNK_SIZE_SHIFT cfg_4k = 12"
  "MAX_ORDER cfg_4k = 11"
  "MIGRATE_TYPES cfg_4k = 6"
  by (simp_all add: VIRTIO_BALLOON_PAGES_PER_PAGE_def PFNS_PER_PAGE_BMAP_def PAGE_BMAP_SIZE_def
        PAGE_SIZE_def BITS_PER_BYTE_def cfg_4k_def)

lemma cfg_64k_simps:
  "VIRTIO_BALLOON_PAGES_PER_PAGE cfg_64k = 16"
  "PAGE_BMAP_SIZE cfg_64k = 524288"
  "PFNS_PER_PAGE_BMAP cfg_64k = 4194304"
  "VIRTIO_BALLOON_CHUNK_BASE_SHIFT cfg_64k = 12"
  "VIRTIO_BALLOON_CHUNK_SIZE_SHIFT cfg_64k = 12"
  "MAX_ORDER cfg_64k = 11"
  "MIGRATE_TYPES cfg_64k = 6"
  by (simp_all add: VIRTIO_BALLOON_PAGES_PER_PAGE_def PFNS_PER_PAGE_BMAP_def PAGE_BMAP_SIZE_def
        PAGE_SIZE_def BITS_PER_BYTE_def cfg_64k_def)

lemmas chunk_path_defs =
  set_page_bmap_def set_page_bmap_loop.simps clear_page_bmap_def set_bit_bmap_def
  chunking_pages_from_bmap_def chunking_loop.simps find_next_bit_def
  find_next_zero_bit.simps add_one_chunk_def store_chunk_def send_page_chunks_def
  hdr_chunks_def chunk_payload_def reset_chunks_def roundup_def rounddown_def ALIGN_def
  extend_page_bmap_size_def free_extended_page_bmap_def
  BITS_PER_LONG_def BITS_PER_BYTE_def ULONG_MAX_def
  PAGE_BMAP_COUNT_MAX_def MAX_PAGE_CHUNKS_def page_to_balloon_pfn_def page_to_pfn_def
  update_page_bmap_range_def init_page_bmap_range_def

lemma length_fold_list_update:
  "length (fold (\<lambda>i a. a[g i := f i]) is xs) = length xs"
  by (induction "is" arbitrary: xs) simp_all

text \<open>
  C10. One call of \<open>leak_balloon\<close>, with any requested amount and with or without
  the chunk feature, takes at most \<open>VIRTIO_BALLOON_ARRAY_PFNS_MAX\<close> balloon pages
  off the ledger: the pages removed are a prefix of the ledger's list, their balloon
  pages are the returned count, and the count is at most 256.
\<close>

theorem leak_balloon_clamped:
  assumes "config_ok cfg" and "leak_balloon cfg num vb = Some (vb', r)"
  shows "unat r \<le> VIRTIO_BALLOON_ARRAY_PFNS_MAX \<and>
         (\<exists>removed. pages vb = removed @ pages vb' \<and>
                    unat r = VIRTIO_BALLOON_PAGES_PER_PAGE cfg * length removed) \<and>
         num_pages vb' = num_pages vb - r"
proof -
  let ?K = "VIRTIO_BALLOON_PAGES_PER_PAGE cfg"
  from leak_balloon_parts [OF assms] obtain lp vb3 vb4 where
    inv: "leak_inv cfg (vb\<lparr>trace := trace vb @ [Lock]\<rparr>) lp vb3"
    and r: "r = num_pfns vb3"
    and t: "(if num_pfns vb3 \<noteq> 0
             then (if F_BALLOON_CHUNKS vb then set_page_bmap cfg lp deflate_vq vb3
                   else tell_host cfg deflate_vq vb3)
             else Some vb3) = Some vb4"
    and u: "vb' = mutex_unlock (release_pages_balloon lp vb4)"
    by blast
  have rn: "r = word_of_nat (?K * length lp)" and le: "?K * length lp \<le> 256"
    using inv r by (simp_all add: leak_inv_def del: of_nat_mult)
  have ur: "unat r = ?K * length lp"
    unfolding rn using le by (rule unat_small)
  have "same_ledger vb3 vb4"
    using t by (auto simp: same_ledger_def split: if_splits
                  dest: same_ledger_set_page_bmap same_ledger_tell_host)
  then have p: "pages vb' = pages vb3" and n: "num_pages vb' = num_pages vb3"
    by (simp_all add: u mutex_unlock_def emit_def release_pages_balloon_frame same_ledger_def)
  have "pages vb = rev lp @ pages vb'"
    using inv p by (simp add: leak_inv_def)
  moreover have "num_pages vb' = num_pages vb - r"
    using inv n rn by (simp add: leak_inv_def del: of_nat_mult)
  ultimately show ?thesis
    using ur le by (auto simp: VIRTIO_BALLOON_ARRAY_PFNS_MAX_def intro: exI [of _ "rev lp"])
qed

theorem leak_balloon_clamped_witness:
  "\<exists>vb' r. leak_balloon cfg_4k 1000
              ((virtballoon_probe True False 0 [] 0 [])\<lparr>pages := [64, 63], num_pages := 2\<rparr>)
            = Some (vb', r) \<and>
          r = 2 \<and> pages vb' = [] \<and> unat r \<le> VIRTIO_BALLOON_ARRAY_PFNS_MAX"
proof -
  have "\<exists>vb' r. leak_balloon cfg_4k 1000
              ((virtballoon_probe True False 0 [] 0 [])\<lparr>pages := [64, 63], num_pages := 2\<rparr>)
            = Some (vb', r) \<and> r = 2 \<and> pages vb' = []"
    by (simp add: array_path_defs chunk_path_defs cfg_4k_simps)
  then obtain vb' r where
    l: "leak_balloon cfg_4k 1000
          ((virtballoon_probe True False 0 [] 0 [])\<lparr>pages := [64, 63], num_pages := 2\<rparr>)
        = Some (vb', r)"
    and "r = 2" and "pages vb' = []"
    by blast
  moreover from leak_balloon_clamped [OF config_ok_4k l]
  have "unat r \<le> VIRTIO_BALLOON_ARRAY_PFNS_MAX" by simp
  ultimately show ?thesis by blast
qed

text \<open>
  C9. On the array path, a deflate batch leaves in the first \<open>num_pfns\<close> entries of
  the pfn array the balloon pfns of the pages it took off the ledger, in the order it
  took them, \<open>VIRTIO_BALLOON_PAGES_PER_PAGE\<close> consecutive numbers for each page;
  that is the buffer the host is given, before the pages are released.
\<close>

theorem deflate_batch_pfns:
  assumes "config_ok cfg" and "\<not> F_BALLOON_CHUNKS vb"
    and "leak_balloon cfg num vb = Some (vb', r)"
  shows "\<exists>dequeued.
           pages vb = dequeued @ pages vb' \<and>
           unat r = VIRTIO_BALLOON_PAGES_PER_PAGE cfg * length dequeued \<and>
           take (unat r) (pfns vb') = concat (map (page_pfns cfg) dequeued) \<and>
           trace vb' = trace vb @ [Lock] @
             (if r \<noteq> 0
              then [Submit deflate_vq (PfnArray (concat (map (page_pfns cfg) dequeued))),
                    WaitAck deflate_vq Blocking]
              else []) @
             map PutPage (rev dequeued) @ [Unlock]"
proof -
  let ?K = "VIRTIO_BALLOON_PAGES_PER_PAGE cfg"
  from leak_balloon_parts [OF assms(1,3)] obtain lp vb3 vb4 where
    inv: "leak_inv cfg (vb\<lparr>trace := trace vb @ [Lock]\<rparr>) lp vb3"
    and r: "r = num_pfns vb3"
    and t0: "(if num_pfns vb3 \<noteq> 0
              then (if F_BALLOON_CHUNKS vb then set_page_bmap cfg lp deflate_vq vb3
                    else tell_host cfg deflate_vq vb3)
              else Some vb3) = Some vb4"
    and u: "vb' = mutex_unlock (release_pages_balloon lp vb4)"
    by blast
  have t: "(if num_pfns vb3 \<noteq> 0 then tell_host cfg deflate_vq vb3 else Some vb3) = Some vb4"
    using t0 assms(2) by (simp split: if_splits)
  have rn: "r = word_of_nat (?K * length lp)" and le: "?K * length lp \<le> 256"
    using inv r by (simp_all add: leak_inv_def del: of_nat_mult)
  have ur: "unat r = ?K * length lp"
    unfolding rn using le by (rule unat_small)
  have tk: "take (unat r) (pfns vb3) = concat (map (page_pfns cfg) (rev lp))"
    using inv ur by (simp add: leak_inv_def)
  have nc: "\<not> F_BALLOON_CHUNKS vb3" and tr3: "trace vb3 = trace vb @ [Lock]"
    using inv assms(2) by (simp_all add: leak_inv_def)
  have v4: "pages vb4 = pages vb3 \<and> pfns vb4 = pfns vb3 \<and>
            trace vb4 = trace vb3 @
              (if r \<noteq> 0
               then [Submit deflate_vq (PfnArray (concat (map (page_pfns cfg) (rev lp)))),
                     WaitAck deflate_vq Blocking]
               else [])"
    using t nc tk r by (auto simp: tell_host_def emit_def split: if_splits)
  have "pages vb = rev lp @ pages vb'"
    using inv v4 by (simp add: leak_inv_def u mutex_unlock_def emit_def release_pages_balloon_frame)
  moreover have "take (unat r) (pfns vb') = concat (map (page_pfns cfg) (rev lp))"
    using tk v4 by (simp add: u mutex_unlock_def emit_def release_pages_balloon_frame)
  moreover have "trace vb' = trace vb @ [Lock] @
             (if r \<noteq> 0
              then [Submit deflate_vq (PfnArray (concat (map (page_pfns cfg) (rev lp)))),
                    WaitAck deflate_vq Blocking]
              else []) @
             map PutPage (rev (rev lp)) @ [Unlock]"
    using v4 tr3 by (simp add: u mutex_unlock_def emit_def release_pages_balloon_frame)
  ultimately show ?thesis
    using ur by (intro exI [of _ "rev lp"]) simp
qed

theorem deflate_batch_pfns_witness:
  "\<exists>vb' r. leak_balloon cfg_64k 32
              ((virtballoon_probe False False 0 [] 0 [])\<lparr>pages := [5, 9, 2], num_pages := 48\<rparr>)
            = Some (vb', r) \<and>
          pages vb' = [2] \<and>
          take (unat r) (pfns vb') = page_pfns cfg_64k 5 @ page_pfns cfg_64k 9"
proof -
  let ?vb = "(virtballoon_probe False False 0 [] 0 [])\<lparr>pages := [5, 9, 2], num_pages := 48\<rparr>"
  have "\<exists>vb' r. leak_balloon cfg_64k 32 ?vb = Some (vb', r) \<and> pages vb' = [2]"
    by (simp add: array_path_defs cfg_64k_simps length_fold_list_update)
  then obtain vb' r where
    l: "leak_balloon cfg_64k 32 ?vb = Some (vb', r)" and p: "pages vb' = [2]"
    by blast
  have "\<not> F_BALLOON_CHUNKS ?vb"
    by (simp add: virtballoon_probe_def)
  from deflate_batch_pfns [OF config_ok_64k this l] p
  have "take (unat r) (pfns vb') = page_pfns cfg_64k 5 @ page_pfns cfg_64k 9"
    by (auto simp: virtballoon_probe_def)
  with l p show ?thesis by blast
qed

section \<open>Size negotiation\<close>

lemma fill_step_counters:
  "fill_step cfg page vb = Some vb' \<Longrightarrow>
     num_pages vb' - num_pfns vb' = num_pages vb - num_pfns vb \<and>
     config_num_pages vb' = config_num_pages vb"
  by (auto simp: fill_step_def update_page_bmap_range_def Let_def set_page_pfns_def
        adjust_managed_page_count_def split: if_splits option.splits)

lemma leak_step_counters:
  "leak_step cfg page vb = Some vb' \<Longrightarrow>
     num_pages vb' + num_pfns vb' = num_pages vb + num_pfns vb \<and>
     config_num_pages vb' = config_num_pages vb"
  by (auto simp: leak_step_def update_page_bmap_range_def Let_def set_page_pfns_def
        split: if_splits option.splits)

lemma fill_loop_counters:
  assumes "fill_loop cfg num vb = Some vb'"
  shows "num_pages vb' - num_pfns vb' = num_pages vb - num_pfns vb \<and>
         config_num_pages vb' = config_num_pages vb"
proof (rule fill_loop_rule [OF assms,
    where P = "\<lambda>v. num_pages v - num_pfns v = num_pages vb - num_pfns vb \<and>
                   config_num_pages v = config_num_pages vb"])
  show "num_pages vb - num_pfns vb = num_pages vb - num_pfns vb \<and>
        config_num_pages vb = config_num_pages vb"
    by simp
next
  fix v v1
  assume "num_pages v - num_pfns v = num_pages vb - num_pfns vb \<and>
          config_num_pages v = config_num_pages vb"
    and "balloon_page_enqueue v = (None, v1)"
  then show "num_pages v1 - num_pfns v1 = num_pages vb - num_pfns vb \<and>
             config_num_pages v1 = config_num_pages vb"
    by (auto simp: balloon_page_enqueue_def split: list.splits option.splits)
next
  fix v page v1 v2
  assume a: "num_pages v - num_pfns v = num_pages vb - num_pfns vb \<and>
             config_num_pages v = config_num_pages vb"
    and e: "balloon_page_enqueue v = (Some page, v1)"
    and s: "fill_step cfg page v1 = Some v2"
  from e have "num_pages v1 = num_pages v" "num_pfns v1 = num_pfns v"
    "config_num_pages v1 = config_num_pages v"
    by (auto simp: balloon_page_enqueue_def split: list.splits option.splits)
  with a fill_step_counters [OF s]
  show "num_pages v2 - num_pfns v2 = num_pages vb - num_pfns vb \<and>
        config_num_pages v2 = config_num_pages vb"
    by simp
qed

lemma leak_loop_counters:
  assumes "leak_loop cfg num lp vb = Some (vb', lp')"
  shows "num_pages vb' + num_pfns vb' = num_pages vb + num_pfns vb \<and>
         config_num_pages vb' = config_num_pages vb"
proof (rule leak_loop_rule [OF assms,
    where P = "\<lambda>l v. num_pages v + num_pfns v = num_pages vb + num_pfns vb \<and>
                     config_num_pages v = config_num_pages vb"])
  show "num_pages vb + num_pfns vb = num_pages vb + num_pfns vb \<and>
        config_num_pages vb = config_num_pages vb"
    by simp
next
  fix v l page v1 v2
  assume a: "num_pages v + num_pfns v = num_pages vb + num_pfns vb \<and>
             config_num_pages v = config_num_pages vb"
    and e: "balloon_page_dequeue v = (Some page, v1)"
    and s: "leak_step cfg page v1 = Some v2"
  from e have "num_pages v1 = num_pages v" "num_pfns v1 = num_pfns v"
    "config_num_pages v1 = config_num_pages v"
    by (auto simp: balloon_page_dequeue_def split: list.splits)
  with a leak_step_counters [OF s]
  show "num_pages v2 + num_pfns v2 = num_pages vb + num_pfns vb \<and>
        config_num_pages v2 = config_num_pages vb"
    by simp
qed

lemma fill_balloon_counters:
  assumes "fill_balloon cfg num vb = Some (vb', r)"
  shows "num_pages vb' = num_pages vb + r" and "config_num_pages vb' = config_num_pages vb"
proof -
  define vb1 where "vb1 = (if F_BALLOON_CHUNKS vb then init_page_bmap_range vb else vb)"
  define num1 where "num1 = (if F_BALLOON_CHUNKS vb then num else min num VIRTIO_BALLOON_ARRAY_PFNS_MAX)"
  from assms obtain vb2 vb3 vb4 where
    l: "mutex_lock vb1 = Some vb2"
    and f: "fill_loop cfg num1 (vb2\<lparr>num_pfns := 0\<rparr>) = Some vb3"
    and r: "r = num_pfns vb3"
    and t: "(if num_pfns vb3 \<noteq> 0
             then (if F_BALLOON_CHUNKS vb then set_page_bmap cfg (pages vb3) inflate_vq vb3
                   else tell_host cfg inflate_vq vb3)
             else Some vb3) = Some vb4"
    and u: "vb' = mutex_unlock vb4"
    unfolding fill_balloon_def Let_def vb1_def num1_def
    by (auto split: option.splits)
  have v2: "num_pages vb2 = num_pages vb \<and> config_num_pages vb2 = config_num_pages vb"
    using l by (auto simp: mutex_lock_def emit_def vb1_def init_page_bmap_range_def split: if_splits)
  have v3: "num_pages vb3 - num_pfns vb3 = num_pages vb \<and>
            config_num_pages vb3 = config_num_pages vb"
    using fill_loop_counters [OF f] v2 by simp
  have "same_ledger vb3 vb4"
    using t by (auto simp: same_ledger_def split: if_splits
                  dest: same_ledger_set_page_bmap same_ledger_tell_host)
  then have v': "num_pages vb' = num_pages vb3 \<and> config_num_pages vb' = config_num_pages vb3"
    by (simp add: u mutex_unlock_def emit_def same_ledger_def)
  from v3 have "num_pages vb3 = num_pages vb + num_pfns vb3"
    by (simp add: algebra_simps)
  with v' r show "num_pages vb' = num_pages vb + r" by simp
  from v3 v' show "config_num_pages vb' = config_num_pages vb" by simp
qed

lemma leak_balloon_counters:
  assumes "leak_balloon cfg num vb = Some (vb', r)"
  shows "num_pages vb' = num_pages vb - r" and "config_num_pages vb' = config_num_pages vb"
proof -
  define vb1 where "vb1 = (if F_BALLOON_CHUNKS vb then init_page_bmap_range vb else vb)"
  from assms obtain vb2 num3 vb3 lp vb4 where
    l: "mutex_lock vb1 = Some vb2"
    and f: "leak_loop cfg num3 [] (vb2\<lparr>num_pfns := 0\<rparr>) = Some (vb3, lp)"
    and r: "r = num_pfns vb3"
    and t: "(if num_pfns vb3 \<noteq> 0
             then (if F_BALLOON_CHUNKS vb then set_page_bmap cfg lp deflate_vq vb3
                   else tell_host cfg deflate_vq vb3)
             else Some vb3) = Some vb4"
    and u: "vb' = mutex_unlock (release_pages_balloon lp vb4)"
    unfolding leak_balloon_def Let_def vb1_def
    by (auto split: option.splits)
  have v2: "num_pages vb2 = num_pages vb \<and> config_num_pages vb2 = config_num_pages vb"
    using l by (auto simp: mutex_lock_def emit_def vb1_def init_page_bmap_range_def split: if_splits)
  have v3: "num_pages vb3 + num_pfns vb3 = num_pages vb \<and>
            config_num_pages vb3 = config_num_pages vb"
    using leak_loop_counters [OF f] v2 by simp
  have "same_ledger vb3 vb4"
    using t by (auto simp: same_ledger_def split: if_splits
                  dest: same_ledger_set_page_bmap same_ledger_tell_host)
  moreover have "config_num_pages (release_pages_balloon lp vb4) = config_num_pages vb4"
    by (induction lp arbitrary: vb4) (simp_all add: emit_def adjust_managed_page_count_def)
  ultimately have v': "num_pages vb' = num_pages vb3 \<and> config_num_pages vb' = config_num_pages vb3"
    by (simp add: u mutex_unlock_def emit_def same_ledger_def release_pages_balloon_frame)
  from v3 have "num_pages vb3 = num_pages vb - num_pfns vb3"
    by (simp add: algebra_simps)
  with v' r show "num_pages vb' = num_pages vb - r" by simp
  from v3 v' show "config_num_pages vb' = config_num_pages vb" by simp
qed

text \<open>The two facts of 32-bit arithmetic the step rests on.\<close>

lemma grow_delta_zero:
  fixes t np r :: u32
  assumes "uint t - uint np > 0"
  shows "uint t - uint np - uint r \<noteq> 0 \<longleftrightarrow> uint t - uint (np + r) \<noteq> 0"
proof -
  have "uint r < 2 ^ 32" "uint t < 2 ^ 32" "0 \<le> uint np"
    using uint_lt2p [of r] uint_lt2p [of t] by simp_all
  with assms show ?thesis
    by (auto simp: uint_plus_if' split: if_splits)
qed

lemma shrink_delta_zero:
  fixes t np r :: u32
  assumes "uint t - uint np < 0"
  shows "uint t - uint np + uint r \<noteq> 0 \<longleftrightarrow> uint t - uint (np - r) \<noteq> 0"
proof -
  have "uint r < 2 ^ 32" "0 \<le> uint t" "uint np < 2 ^ 32"
    using uint_lt2p [of r] uint_lt2p [of np] by simp_all
  with assms show ?thesis
    by (auto simp: uint_sub_if' split: if_splits) (use uint_ge_0 [of t] in linarith)+
qed

text \<open>
  C5. A step of \<open>update_balloon_size_func\<close> that returns has written the new
  \<open>num_pages\<close> to the configuration space, whatever the step did, and has queued the
  work again exactly when the target still differs from \<open>num_pages\<close>.
\<close>

theorem size_negotiation_step:
  assumes "update_balloon_size_func cfg vb = Some (vb', requeue)"
  shows "config_actual vb' = num_pages vb' \<and> (requeue \<longleftrightarrow> towards_target vb' \<noteq> 0)"
proof -
  let ?diff = "towards_target vb"
  consider (grow) "?diff > 0" | (shrink) "?diff < 0" | (idle) "?diff = 0"
    by linarith
  then show ?thesis
  proof cases
    case grow
    with assms obtain vb1 n where
      f: "fill_balloon cfg (nat ?diff) vb = Some (vb1, n)"
      and v: "vb' = update_balloon_size vb1" and q: "requeue \<longleftrightarrow> ?diff - uint n \<noteq> 0"
      by (auto simp: update_balloon_size_func_def Let_def split: option.splits)
    from fill_balloon_counters [OF f]
    have "towards_target vb' = uint (config_num_pages vb) - uint (num_pages vb + n)"
      by (simp add: towards_target_def v update_balloon_size_def)
    with q grow_delta_zero [of "config_num_pages vb" "num_pages vb" n] grow
    show ?thesis
      by (simp add: towards_target_def v update_balloon_size_def)
  next
    case shrink
    with assms obtain vb1 n where
      f: "leak_balloon cfg (nat (- ?diff)) vb = Some (vb1, n)"
      and v: "vb' = update_balloon_size vb1" and q: "requeue \<longleftrightarrow> ?diff + uint n \<noteq> 0"
      by (auto simp: update_balloon_size_func_def Let_def split: option.splits)
    from leak_balloon_counters [OF f]
    have "towards_target vb' = uint (config_num_pages vb) - uint (num_pages vb - n)"
      by (simp add: towards_target_def v update_balloon_size_def)
    with q shrink_delta_zero [of "config_num_pages vb" "num_pages vb" n] shrink
    show ?thesis
      by (simp add: towards_target_def v update_balloon_size_def)
  next
    case idle
    with assms have "vb' = update_balloon_size vb" "\<not> requeue"
      by (auto simp: update_balloon_size_func_def Let_def)
    with idle show ?thesis
      by (simp add: towards_target_def update_balloon_size_def)
  qed
qed

theorem size_negotiation_step_witness:
  "\<exists>vb' requeue.
     update_balloon_size_func cfg_4k (virtballoon_probe False False 3 [Some 7, Some 9] 0 [])
       = Some (vb', requeue) \<and>
     config_actual vb' = 2 \<and> requeue \<and> towards_target vb' = 1"
proof -
  let ?vb = "virtballoon_probe False False 3 [Some 7, Some 9] 0 []"
  have "\<exists>vb' requeue. update_balloon_size_func cfg_4k ?vb = Some (vb', requeue) \<and>
          num_pages vb' = 2 \<and> config_num_pages vb' = 3"
    by (simp add: update_balloon_size_func_def towards_target_def update_balloon_size_def
          array_path_defs cfg_4k_simps) blast
  then obtain vb' requeue where
    u: "update_balloon_size_func cfg_4k ?vb = Some (vb', requeue)"
    and n: "num_pages vb' = 2" and c: "config_num_pages vb' = 3"
    by blast
  from size_negotiation_step [OF u] n c
  have "config_actual vb' = 2 \<and> requeue \<and> towards_target vb' = 1"
    by (simp add: towards_target_def)
  with u show ?thesis by blast
qed

section \<open>One inflate batch on the array path\<close>

lemma fill_step_array:
  assumes "\<not> F_BALLOON_CHUNKS vb"
    and "unat (num_pfns vb) + VIRTIO_BALLOON_PAGES_PER_PAGE cfg \<le> length (pfns vb)"
  shows "fill_step cfg page vb =
           Some (vb\<lparr>pfns := take (unat (num_pfns vb)) (pfns vb) @ page_pfns cfg page @
                            drop (unat (num_pfns vb) + VIRTIO_BALLOON_PAGES_PER_PAGE cfg) (pfns vb),
                     num_pages := num_pages vb + word_of_nat (VIRTIO_BALLOON_PAGES_PER_PAGE cfg),
                     managed_pages := (if F_DEFLATE_ON_OOM vb then managed_pages vb
                                       else managed_pages vb - 1),
                     num_pfns := num_pfns vb + word_of_nat (VIRTIO_BALLOON_PAGES_PER_PAGE cfg)\<rparr>)"
  using assms
  by (simp add: fill_step_def set_page_pfns_def page_pfns_def fold_list_update_append Let_def
        adjust_managed_page_count_def)

text \<open>
  The inflate loop on the array path, with an allocator that gives the pages \<open>ps\<close>
  one after the other and with room for exactly these pages.
\<close>

lemma fill_loop_array:
  assumes "\<not> F_BALLOON_CHUNKS vb" and "0 < VIRTIO_BALLOON_PAGES_PER_PAGE cfg"
    and "allocator vb = map Some ps @ rest"
    and "num_pfns vb = word_of_nat off"
    and "off + VIRTIO_BALLOON_PAGES_PER_PAGE cfg * length ps = 256"
    and "length (pfns vb) = 256"
  shows "\<exists>vb'. fill_loop cfg 256 vb = Some vb' \<and>
           pages vb' = rev ps @ pages vb \<and>
           num_pages vb' = num_pages vb + word_of_nat (VIRTIO_BALLOON_PAGES_PER_PAGE cfg * length ps) \<and>
           num_pfns vb' = 256 \<and>
           pfns vb' = take off (pfns vb) @ concat (map (page_pfns cfg) ps) \<and>
           allocator vb' = rest \<and>
           \<not> F_BALLOON_CHUNKS vb' \<and>
           trace vb' = trace vb \<and> broken vb' = broken vb \<and> balloon_lock vb' = balloon_lock vb"
  using assms
proof (induction ps arbitrary: vb off)
  case Nil
  then have "num_pfns vb = 256" by simp
  then have "fill_loop cfg 256 vb = Some vb"
    by (subst fill_loop.simps) simp
  with Nil show ?case by simp
next
  case (Cons p ps)
  let ?K = "VIRTIO_BALLOON_PAGES_PER_PAGE cfg"
  have off: "off < 256" "off + ?K \<le> 256"
    using Cons.prems(2,5) by auto
  have un: "unat (num_pfns vb) = off"
    using Cons.prems(4) off(1) by (simp add: unat_small)
  define vb1 where "vb1 = vb\<lparr>allocator := map Some ps @ rest, pages := p # pages vb\<rparr>"
  have e: "balloon_page_enqueue vb = (Some p, vb1)"
    using Cons.prems(3) by (simp add: balloon_page_enqueue_def vb1_def)
  define vb2 where
    "vb2 = vb1\<lparr>pfns := take off (pfns vb) @ page_pfns cfg p @ drop (off + ?K) (pfns vb),
               num_pages := num_pages vb + word_of_nat ?K,
               managed_pages := (if F_DEFLATE_ON_OOM vb then managed_pages vb
                                 else managed_pages vb - 1),
               num_pfns := word_of_nat (off + ?K)\<rparr>"
  have s: "fill_step cfg p vb1 = Some vb2"
    using fill_step_array [of vb1 cfg p] Cons.prems(1,4,6) un off
    by (simp add: vb1_def vb2_def)
  have step: "fill_loop cfg 256 vb = fill_loop cfg 256 vb2"
    using un off e s by (subst fill_loop.simps) simp
  have "\<exists>vb'. fill_loop cfg 256 vb2 = Some vb' \<and>
           pages vb' = rev ps @ pages vb2 \<and>
           num_pages vb' = num_pages vb2 + word_of_nat (?K * length ps) \<and>
           num_pfns vb' = 256 \<and>
           pfns vb' = take (off + ?K) (pfns vb2) @ concat (map (page_pfns cfg) ps) \<and>
           allocator vb' = rest \<and>
           \<not> F_BALLOON_CHUNKS vb' \<and>
           trace vb' = trace vb2 \<and> broken vb' = broken vb2 \<and> balloon_lock vb' = balloon_lock vb2"
  proof (rule Cons.IH)
    show "\<not> F_BALLOON_CHUNKS vb2" using Cons.prems(1) by (simp add: vb2_def vb1_def)
    show "0 < ?K" by (rule Cons.prems(2))
    show "allocator vb2 = map Some ps @ rest" by (simp add: vb2_def vb1_def)
    show "num_pfns vb2 = word_of_nat (off + ?K)" by (simp add: vb2_def)
    show "off + ?K + ?K * length ps = 256" using Cons.prems(5) by simp
    show "length (pfns vb2) = 256"
      using Cons.prems(6) off by (simp add: vb2_def length_page_pfns)
  qed
  then obtain vb' where r: "fill_loop cfg 256 vb2 = Some vb'"
    and p: "pages vb' = rev ps @ pages vb2"
    and n: "num_pages vb' = num_pages vb2 + word_of_nat (?K * length ps)"
    and f: "num_pfns vb' = 256"
    and a: "pfns vb' = take (off + ?K) (pfns vb2) @ concat (map (page_pfns cfg) ps)"
    and o: "allocator vb' = rest" "\<not> F_BALLOON_CHUNKS vb'" "trace vb' = trace vb2"
      "broken vb' = broken vb2" "balloon_lock vb' = balloon_lock vb2"
    by blast
  have "take (off + ?K) (pfns vb2) = take off (pfns vb) @ page_pfns cfg p"
    using Cons.prems(6) off by (simp add: vb2_def length_page_pfns)
  with a have "pfns vb' = take off (pfns vb) @ concat (map (page_pfns cfg) (p # ps))"
    by simp
  moreover have "num_pages vb' = num_pages vb + word_of_nat (?K * length (p # ps))"
    using n by (simp add: vb2_def algebra_simps)
  moreover have "pages vb' = rev (p # ps) @ pages vb"
    using p by (simp add: vb2_def vb1_def)
  ultimately show ?case
    using step r f o by (simp add: vb2_def vb1_def)
qed

lemma fill_balloon_array_round:
  assumes ok: "config_ok cfg" and nc: "\<not> F_BALLOON_CHUNKS vb" and nl: "\<not> balloon_lock vb"
    and nb: "inflate_vq \<notin> set (broken vb)" and len: "length (pfns vb) = 256"
    and al: "allocator vb = map Some ps @ rest"
    and full: "VIRTIO_BALLOON_PAGES_PER_PAGE cfg * length ps = 256"
    and num: "256 \<le> num"
  shows "\<exists>vb'. fill_balloon cfg num vb = Some (vb', 256) \<and>
           num_pages vb' = num_pages vb + 256 \<and>
           pages vb' = rev ps @ pages vb \<and>
           trace vb' = trace vb @
             [Lock, Submit inflate_vq (PfnArray (concat (map (page_pfns cfg) ps))),
              WaitAck inflate_vq Blocking, Unlock]"
proof -
  define vb2 where "vb2 = (emit Lock (vb\<lparr>balloon_lock := True\<rparr>))\<lparr>num_pfns := 0\<rparr>"
  have "\<exists>vb'. fill_loop cfg 256 vb2 = Some vb' \<and>
           pages vb' = rev ps @ pages vb2 \<and>
           num_pages vb' = num_pages vb2 + word_of_nat (VIRTIO_BALLOON_PAGES_PER_PAGE cfg * length ps) \<and>
           num_pfns vb' = 256 \<and>
           pfns vb' = take 0 (pfns vb2) @ concat (map (page_pfns cfg) ps) \<and>
           allocator vb' = rest \<and>
           \<not> F_BALLOON_CHUNKS vb' \<and>
           trace vb' = trace vb2 \<and> broken vb' = broken vb2 \<and> balloon_lock vb' = balloon_lock vb2"
  proof (rule fill_loop_array)
    show "\<not> F_BALLOON_CHUNKS vb2" using nc by (simp add: vb2_def emit_def)
    show "0 < VIRTIO_BALLOON_PAGES_PER_PAGE cfg" by (rule pages_per_page_dvd(2) [OF ok])
    show "allocator vb2 = map Some ps @ rest" using al by (simp add: vb2_def emit_def)
    show "num_pfns vb2 = word_of_nat 0" by (simp add: vb2_def)
    show "0 + VIRTIO_BALLOON_PAGES_PER_PAGE cfg * length ps = 256" using full by simp
    show "length (pfns vb2) = 256" using len by (simp add: vb2_def emit_def)
  qed
  then obtain vb3 where f: "fill_loop cfg 256 vb2 = Some vb3"
    and p: "pages vb3 = rev ps @ pages vb"
    and n: "num_pages vb3 = num_pages vb + 256"
    and c: "num_pfns vb3 = 256"
    and a: "pfns vb3 = concat (map (page_pfns cfg) ps)"
    and o: "\<not> F_BALLOON_CHUNKS vb3" "trace vb3 = trace vb @ [Lock]" "broken vb3 = broken vb"
    using full by (auto simp: vb2_def emit_def)
  have la: "length (concat (map (page_pfns cfg) ps)) = 256"
    using full by (simp add: length_concat length_page_pfns comp_def sum_list_triv mult.commute)
  define vb4 where
    "vb4 = emit (WaitAck inflate_vq Blocking)
             (emit (Submit inflate_vq (PfnArray (concat (map (page_pfns cfg) ps)))) vb3)"
  have t: "tell_host cfg inflate_vq vb3 = Some vb4"
    using o nb c a la by (simp add: tell_host_def virtqueue_add_outbuf_def vb4_def)
  have "fill_balloon cfg num vb = Some (mutex_unlock vb4, 256)"
    using nc nl num f c t
    by (simp add: fill_balloon_def Let_def mutex_lock_def VIRTIO_BALLOON_ARRAY_PFNS_MAX_def
          vb2_def min_def)
  moreover have "num_pages (mutex_unlock vb4) = num_pages vb + 256"
    using n by (simp add: mutex_unlock_def vb4_def emit_def)
  moreover have "pages (mutex_unlock vb4) = rev ps @ pages vb"
    using p by (simp add: mutex_unlock_def vb4_def emit_def)
  moreover have "trace (mutex_unlock vb4) = trace vb @
             [Lock, Submit inflate_vq (PfnArray (concat (map (page_pfns cfg) ps))),
              WaitAck inflate_vq Blocking, Unlock]"
    using o by (simp add: mutex_unlock_def vb4_def emit_def)
  ultimately show ?thesis by blast
qed

text \<open>
  C6, as the spec has it: one call \<open>fill_balloon(1024)\<close> with sixteen balloon pages
  per page on the array path, with an allocator that never fails, would leave 1024
  balloon pages on the ledger. It leaves 256: the request is cut to the size of the
  pfn array before the loop.
\<close>

theorem grow_1024_counterexample:
  "map_option (num_pages \<circ> fst)
     (fill_balloon cfg_64k 1024
        (virtballoon_probe False False 1024
           (map Some [100..<116] @ map Some [116..<164]) 0 [])) = Some 256 \<and>
   map_option (num_pages \<circ> fst)
     (fill_balloon cfg_64k 1024
        (virtballoon_probe False False 1024
           (map Some [100..<116] @ map Some [116..<164]) 0 [])) \<noteq> Some 1024"
proof -
  let ?vb = "virtballoon_probe False False 1024 (map Some [100..<116] @ map Some [116..<164]) 0 []"
  have "\<exists>vb'. fill_balloon cfg_64k 1024 ?vb = Some (vb', 256) \<and>
           num_pages vb' = num_pages ?vb + 256 \<and>
           pages vb' = rev [100..<116] @ pages ?vb \<and>
           trace vb' = trace ?vb @
             [Lock, Submit inflate_vq (PfnArray (concat (map (page_pfns cfg_64k) [100..<116]))),
              WaitAck inflate_vq Blocking, Unlock]"
    by (rule fill_balloon_array_round [OF config_ok_64k])
       (simp_all add: virtballoon_probe_def cfg_64k_simps VIRTIO_BALLOON_ARRAY_PFNS_MAX_def)
  then show ?thesis
    by (auto simp: virtballoon_probe_def)
qed

text \<open>
  C6, amended: one call \<open>fill_balloon(num)\<close> with \<open>num\<close> at least 256 on the array
  path, with an allocator that gives a page at every request of the batch, adds 256
  balloon pages (\<open>256 / VIRTIO_BALLOON_PAGES_PER_PAGE\<close> pages) to the ledger and
  hands the host exactly one buffer, the pfn array with the balloon pfns of these pages.
\<close>

theorem grow_array_path_one_round:
  assumes "config_ok cfg" and "\<not> F_BALLOON_CHUNKS vb" and "\<not> balloon_lock vb"
    and "inflate_vq \<notin> set (broken vb)" and "length (pfns vb) = 256"
    and "allocator vb = map Some ps @ rest"
    and "VIRTIO_BALLOON_PAGES_PER_PAGE cfg * length ps = 256"
    and "256 \<le> num"
  shows "\<exists>vb'. fill_balloon cfg num vb = Some (vb', 256) \<and>
           num_pages vb' = num_pages vb + 256 \<and>
           pages vb' = rev ps @ pages vb \<and>
           trace vb' = trace vb @
             [Lock, Submit inflate_vq (PfnArray (concat (map (page_pfns cfg) ps))),
              WaitAck inflate_vq Blocking, Unlock]"
  using assms by (rule fill_balloon_array_round)

theorem grow_array_path_one_round_witness:
  "\<exists>vb'. fill_balloon cfg_64k 1024
            (virtballoon_probe False False 1024 (map Some [0..<16] @ map Some [16..<64]) 0 [])
          = Some (vb', 256) \<and>
        num_pages vb' = 256 \<and> length (pages vb') = 16 \<and>
        trace vb' =
          [Lock, Submit inflate_vq (PfnArray (concat (map (page_pfns cfg_64k) [0..<16]))),
           WaitAck inflate_vq Blocking, Unlock]"
proof -
  let ?vb = "virtballoon_probe False False 1024 (map Some [0..<16] @ map Some [16..<64]) 0 []"
  have "\<exists>vb'. fill_balloon cfg_64k 1024 ?vb = Some (vb', 256) \<and>
           num_pages vb' = num_pages ?vb + 256 \<and>
           pages vb' = rev [0..<16] @ pages ?vb \<and>
           trace vb' = trace ?vb @
             [Lock, Submit inflate_vq (PfnArray (concat (map (page_pfns cfg_64k) [0..<16]))),
              WaitAck inflate_vq Blocking, Unlock]"
    by (rule grow_array_path_one_round [OF config_ok_64k])
       (simp_all add: virtballoon_probe_def cfg_64k_simps VIRTIO_BALLOON_ARRAY_PFNS_MAX_def)
  then show ?thesis
    by (auto simp: virtballoon_probe_def)
qed

section \<open>The cap of the chunk buffers\<close>

text \<open>A sequence of \<open>add_one_chunk\<close> calls on one buffer and one queue.\<close>

definition add_chunks ::
  "config \<Rightarrow> vq \<Rightarrow> chunk_type \<Rightarrow> (u64 \<times> u64) list \<Rightarrow> virtio_balloon \<Rightarrow> virtio_balloon option" where
  "add_chunks cfg q ty cs vb = fold_opt (\<lambda>(base, sz). add_one_chunk cfg q ty base sz) cs vb"

text \<open>The buffers handed to the host in a trace.\<close>

fun flushes :: "event list \<Rightarrow> payload list" where
  "flushes [] = []"
| "flushes (Submit q p # es) = p # flushes es"
| "flushes (e # es) = flushes es"

lemma flushes_append: "flushes (xs @ ys) = flushes xs @ flushes ys"
  by (induction xs rule: flushes.induct) simp_all

lemma fold_opt_append:
  "fold_opt f (xs @ ys) s = (case fold_opt f xs s of None \<Rightarrow> None | Some s' \<Rightarrow> fold_opt f ys s')"
  by (induction xs arbitrary: s) (simp_all split: option.splits)

lemma hdr_chunks_store: "hdr_chunks ty (store_chunk ty c vb) = Suc (hdr_chunks ty vb)"
  by (cases ty) (simp_all add: hdr_chunks_def store_chunk_def)

text \<open>One call on a queue that takes the buffer.\<close>

lemma add_one_chunk_accepted:
  assumes "q \<notin> set (broken vb)" and "hdr_chunks ty vb < MAX_PAGE_CHUNKS"
  shows "\<exists>vb'. add_one_chunk cfg q ty base sz vb = Some vb' \<and>
           broken vb' = broken vb \<and>
           hdr_chunks ty vb' = Suc (hdr_chunks ty vb) mod MAX_PAGE_CHUNKS \<and>
           length (flushes (trace vb')) =
             length (flushes (trace vb)) + Suc (hdr_chunks ty vb) div MAX_PAGE_CHUNKS"
proof -
  let ?c = "\<lparr>chunk_base = push_bit (VIRTIO_BALLOON_CHUNK_BASE_SHIFT cfg) base,
            chunk_size = push_bit (VIRTIO_BALLOON_CHUNK_SIZE_SHIFT cfg) sz\<rparr>"
  let ?vb1 = "store_chunk ty ?c vb"
  have b1: "broken ?vb1 = broken vb" and t1: "trace ?vb1 = trace vb"
    by (cases ty; simp add: store_chunk_def)+
  show ?thesis
  proof (cases "Suc (hdr_chunks ty vb) = MAX_PAGE_CHUNKS")
    case True
    have a: "add_one_chunk cfg q ty base sz vb = Some (send_page_chunks q ty False ?vb1)"
      using assms(2) True by (simp add: add_one_chunk_def Let_def hdr_chunks_store)
    have "hdr_chunks ty (send_page_chunks q ty False ?vb1) = 0"
      using assms(1) b1
      by (cases ty)
         (simp_all add: send_page_chunks_def virtqueue_add_outbuf_def reset_chunks_def
            hdr_chunks_def emit_def)
    moreover have "length (flushes (trace (send_page_chunks q ty False ?vb1)))
                     = length (flushes (trace vb)) + 1"
      using assms(1) b1 t1
      by (cases ty)
         (simp_all add: send_page_chunks_def virtqueue_add_outbuf_def reset_chunks_def
            emit_def flushes_append)
    moreover have "broken (send_page_chunks q ty False ?vb1) = broken vb"
      using b1
      by (cases ty)
         (simp_all add: send_page_chunks_def reset_chunks_def emit_def)
    ultimately show ?thesis
      using a True by simp
  next
    case False
    with assms(2) have lt: "Suc (hdr_chunks ty vb) < MAX_PAGE_CHUNKS" by simp
    then have "add_one_chunk cfg q ty base sz vb = Some ?vb1"
      using assms(2) by (simp add: add_one_chunk_def Let_def hdr_chunks_store)
    with lt b1 t1 show ?thesis
      by (simp add: hdr_chunks_store)
  qed
qed

lemma add_chunks_accepted:
  assumes "q \<notin> set (broken vb)" and "hdr_chunks ty vb < MAX_PAGE_CHUNKS"
  shows "\<exists>vb'. add_chunks cfg q ty cs vb = Some vb' \<and>
           hdr_chunks ty vb' < MAX_PAGE_CHUNKS \<and>
           hdr_chunks ty vb' = (hdr_chunks ty vb + length cs) mod MAX_PAGE_CHUNKS \<and>
           length (flushes (trace vb')) =
             length (flushes (trace vb)) + (hdr_chunks ty vb + length cs) div MAX_PAGE_CHUNKS"
  using assms
proof (induction cs arbitrary: vb)
  case Nil
  then show ?case by (simp add: add_chunks_def)
next
  case (Cons c cs)
  obtain base sz where c: "c = (base, sz)" by (cases c)
  let ?n = "hdr_chunks ty vb"
  from add_one_chunk_accepted [OF Cons.prems, of cfg base sz] obtain vb1 where
    a: "add_one_chunk cfg q ty base sz vb = Some vb1"
    and b: "broken vb1 = broken vb"
    and h: "hdr_chunks ty vb1 = Suc ?n mod MAX_PAGE_CHUNKS"
    and f: "length (flushes (trace vb1)) = length (flushes (trace vb)) + Suc ?n div MAX_PAGE_CHUNKS"
    by blast
  have m: "0 < MAX_PAGE_CHUNKS" by (simp add: MAX_PAGE_CHUNKS_def)
  have lt: "hdr_chunks ty vb1 < MAX_PAGE_CHUNKS"
    using h m by simp
  from Cons.IH [of vb1] Cons.prems(1) b lt obtain vb' where
    r: "add_chunks cfg q ty cs vb1 = Some vb'"
    and h': "hdr_chunks ty vb' < MAX_PAGE_CHUNKS"
      "hdr_chunks ty vb' = (hdr_chunks ty vb1 + length cs) mod MAX_PAGE_CHUNKS"
    and f': "length (flushes (trace vb')) =
               length (flushes (trace vb1)) + (hdr_chunks ty vb1 + length cs) div MAX_PAGE_CHUNKS"
    by auto
  have "add_chunks cfg q ty (c # cs) vb = Some vb'"
    using a r by (simp add: add_chunks_def c)
  moreover have "hdr_chunks ty vb' = (?n + length (c # cs)) mod MAX_PAGE_CHUNKS"
    using h'(2) h by (simp add: mod_add_left_eq)
  moreover have "Suc ?n div MAX_PAGE_CHUNKS + (Suc ?n mod MAX_PAGE_CHUNKS + length cs) div MAX_PAGE_CHUNKS
                   = (Suc ?n + length cs) div MAX_PAGE_CHUNKS"
  proof (cases "Suc ?n = MAX_PAGE_CHUNKS")
    case True
    have "(MAX_PAGE_CHUNKS + length cs) div MAX_PAGE_CHUNKS = length cs div MAX_PAGE_CHUNKS + 1"
      by (rule div_add_self1) (use m in simp)
    then show ?thesis using m by (simp add: True)
  next
    case False
    with Cons.prems(2) have "Suc ?n < MAX_PAGE_CHUNKS" by simp
    then show ?thesis by simp
  qed
  then have "length (flushes (trace vb')) =
               length (flushes (trace vb)) + (?n + length (c # cs)) div MAX_PAGE_CHUNKS"
    using f' f h by simp
  ultimately show ?case
    using h'(1) by simp
qed

text \<open>A sequence of calls on a queue that refuses the buffer.\<close>

lemma add_chunks_refused:
  assumes "q \<in> set (broken vb)" and "hdr_chunks ty vb + length cs \<le> MAX_PAGE_CHUNKS"
  shows "\<exists>vb'. add_chunks cfg q ty cs vb = Some vb' \<and>
           broken vb' = broken vb \<and>
           hdr_chunks ty vb' = hdr_chunks ty vb + length cs \<and>
           trace vb' = trace vb"
  using assms
proof (induction cs arbitrary: vb)
  case Nil
  then show ?case by (simp add: add_chunks_def)
next
  case (Cons c cs)
  obtain base sz where c: "c = (base, sz)" by (cases c)
  let ?c = "\<lparr>chunk_base = push_bit (VIRTIO_BALLOON_CHUNK_BASE_SHIFT cfg) base,
            chunk_size = push_bit (VIRTIO_BALLOON_CHUNK_SIZE_SHIFT cfg) sz\<rparr>"
  let ?vb1 = "store_chunk ty ?c vb"
  have b1: "broken ?vb1 = broken vb" and t1: "trace ?vb1 = trace vb"
    by (cases ty; simp add: store_chunk_def)+
  have "send_page_chunks q ty False ?vb1 = ?vb1"
    using Cons.prems(1) b1 by (simp add: send_page_chunks_def virtqueue_add_outbuf_def)
  then have a: "add_one_chunk cfg q ty base sz vb = Some ?vb1"
    using Cons.prems(2) by (simp add: add_one_chunk_def Let_def)
  from Cons.IH [of ?vb1] Cons.prems b1 obtain vb' where
    "add_chunks cfg q ty cs ?vb1 = Some vb'" "broken vb' = broken ?vb1"
    "hdr_chunks ty vb' = hdr_chunks ty ?vb1 + length cs" "trace vb' = trace ?vb1"
    by (auto simp: hdr_chunks_store)
  with a b1 t1 show ?case
    by (simp add: add_chunks_def c hdr_chunks_store)
qed

text \<open>
  The entries of a chunk buffer, the entry \<open>add_one_chunk\<close> writes for a pair of base
  and size, and what one flush at the cap does to the outside: the buffer is put on the
  queue with all its entries, and the driver sleeps until the host has taken it.
\<close>

definition chunk_buffer :: "chunk_type \<Rightarrow> virtio_balloon \<Rightarrow> virtio_balloon_page_chunk list" where
  "chunk_buffer ty vb =
     (case ty of
        PAGE_CHUNK_TYPE_BALLOON \<Rightarrow> balloon_page_chunk vb
      | PAGE_CHUNK_TYPE_UNUSED \<Rightarrow> unused_page_chunk vb)"

definition shifted_chunk :: "config \<Rightarrow> u64 \<times> u64 \<Rightarrow> virtio_balloon_page_chunk" where
  "shifted_chunk cfg c =
     \<lparr>chunk_base = push_bit (VIRTIO_BALLOON_CHUNK_BASE_SHIFT cfg) (fst c),
      chunk_size = push_bit (VIRTIO_BALLOON_CHUNK_SIZE_SHIFT cfg) (snd c)\<rparr>"

definition cap_flush ::
  "vq \<Rightarrow> chunk_type \<Rightarrow> virtio_balloon_miscq_hdr \<Rightarrow> virtio_balloon_page_chunk list \<Rightarrow> event list" where
  "cap_flush q ty h b =
     [Submit q (case ty of
                  PAGE_CHUNK_TYPE_BALLOON \<Rightarrow> BalloonChunks b
                | PAGE_CHUNK_TYPE_UNUSED \<Rightarrow> UnusedChunks h b),
      WaitAck q Blocking]"

text \<open>A list cut into groups of \<open>n\<close>, the incomplete group at the end left out.\<close>

function full_batches :: "nat \<Rightarrow> 'a list \<Rightarrow> 'a list list" where
  "full_batches n xs =
     (if 0 < n \<and> n \<le> length xs then take n xs # full_batches n (drop n xs) else [])"
  by pat_completeness auto
termination
  by (relation "measure (\<lambda>(n, xs). length xs)") auto

declare full_batches.simps [simp del]

lemma full_batches_short: "length xs < n \<Longrightarrow> full_batches n xs = []"
  by (subst full_batches.simps) simp

lemma full_batches_full:
  "0 < n \<Longrightarrow> length b = n \<Longrightarrow> full_batches n (b @ xs) = b # full_batches n xs"
  by (subst full_batches.simps) simp

lemma full_batches_step:
  "length b < n \<Longrightarrow> full_batches n (b @ xs) =
     (if n \<le> length b + length xs
      then (b @ take (n - length b) xs) # full_batches n (drop (n - length b) xs)
      else [])"
  by (subst full_batches.simps) simp

lemma length_full_batches: "0 < n \<Longrightarrow> length (full_batches n xs) = length xs div n"
proof (induction n xs rule: full_batches.induct)
  case (1 n xs)
  show ?case
  proof (cases "n \<le> length xs")
    case True
    with 1 have "length (full_batches n (drop n xs)) = (length xs - n) div n"
      by simp
    moreover have "full_batches n xs = take n xs # full_batches n (drop n xs)"
      using True "1.prems" by (subst full_batches.simps) simp
    ultimately show ?thesis
      using True "1.prems" by (simp add: le_div_geq)
  next
    case False
    then show ?thesis
      using "1.prems" by (simp add: full_batches_short)
  qed
qed

lemma full_batches_lengths: "b \<in> set (full_batches n xs) \<Longrightarrow> length b = n"
proof (induction n xs rule: full_batches.induct)
  case (1 n xs)
  show ?case
  proof (cases "0 < n \<and> n \<le> length xs")
    case True
    then have "full_batches n xs = take n xs # full_batches n (drop n xs)"
      by (subst full_batches.simps) simp
    with "1.prems" have "b = take n xs \<or> b \<in> set (full_batches n (drop n xs))"
      by simp
    then show ?thesis
      using True "1.IH" by auto
  next
    case False
    then have "full_batches n xs = []"
      by (subst full_batches.simps) simp
    with "1.prems" show ?thesis by simp
  qed
qed

lemma chunk_buffer_length: "length (chunk_buffer ty vb) = hdr_chunks ty vb"
  by (cases ty) (simp_all add: chunk_buffer_def hdr_chunks_def)

text \<open>One call on a queue that takes the buffer, with all it does.\<close>

lemma add_one_chunk_flush:
  assumes "q \<notin> set (broken vb)" and "hdr_chunks ty vb < MAX_PAGE_CHUNKS"
  shows "\<exists>vb'. add_one_chunk cfg q ty (fst c) (snd c) vb = Some vb' \<and>
           broken vb' = broken vb \<and> miscq_out_hdr vb' = miscq_out_hdr vb \<and>
           (if Suc (hdr_chunks ty vb) = MAX_PAGE_CHUNKS
            then chunk_buffer ty vb' = [] \<and>
                 trace vb' = trace vb @
                   cap_flush q ty (miscq_out_hdr vb) (chunk_buffer ty vb @ [shifted_chunk cfg c])
            else chunk_buffer ty vb' = chunk_buffer ty vb @ [shifted_chunk cfg c] \<and>
                 trace vb' = trace vb)"
proof (cases "Suc (hdr_chunks ty vb) = MAX_PAGE_CHUNKS")
  case True
  with assms show ?thesis
    by (cases ty)
       (simp_all add: add_one_chunk_def hdr_chunks_def store_chunk_def Let_def
          send_page_chunks_def virtqueue_add_outbuf_def reset_chunks_def emit_def
          chunk_payload_def chunk_buffer_def shifted_chunk_def cap_flush_def)
next
  case False
  with assms show ?thesis
    by (cases ty)
       (simp_all add: add_one_chunk_def hdr_chunks_def store_chunk_def Let_def
          chunk_buffer_def shifted_chunk_def)
qed

lemma add_chunks_flush:
  assumes "q \<notin> set (broken vb)" and "hdr_chunks ty vb < MAX_PAGE_CHUNKS"
  shows "\<exists>vb'. add_chunks cfg q ty cs vb = Some vb' \<and>
           hdr_chunks ty vb' < MAX_PAGE_CHUNKS \<and>
           trace vb' = trace vb @
             concat (map (cap_flush q ty (miscq_out_hdr vb))
               (full_batches MAX_PAGE_CHUNKS (chunk_buffer ty vb @ map (shifted_chunk cfg) cs))) \<and>
           concat (full_batches MAX_PAGE_CHUNKS (chunk_buffer ty vb @ map (shifted_chunk cfg) cs))
             @ chunk_buffer ty vb' = chunk_buffer ty vb @ map (shifted_chunk cfg) cs"
  using assms
proof (induction cs arbitrary: vb)
  case Nil
  then show ?case
    by (simp add: add_chunks_def full_batches_short chunk_buffer_length)
next
  case (Cons c cs)
  let ?n = "hdr_chunks ty vb"
  let ?w = "shifted_chunk cfg c"
  have m: "0 < MAX_PAGE_CHUNKS" by (simp add: MAX_PAGE_CHUNKS_def)
  from add_one_chunk_flush [OF Cons.prems, of cfg c] obtain vb1 where
    a: "add_one_chunk cfg q ty (fst c) (snd c) vb = Some vb1"
    and b: "broken vb1 = broken vb" and hd: "miscq_out_hdr vb1 = miscq_out_hdr vb"
    and s: "if Suc ?n = MAX_PAGE_CHUNKS
            then chunk_buffer ty vb1 = [] \<and>
                 trace vb1 = trace vb @
                   cap_flush q ty (miscq_out_hdr vb) (chunk_buffer ty vb @ [?w])
            else chunk_buffer ty vb1 = chunk_buffer ty vb @ [?w] \<and> trace vb1 = trace vb"
    by blast
  have lt: "hdr_chunks ty vb1 < MAX_PAGE_CHUNKS"
  proof (cases "Suc ?n = MAX_PAGE_CHUNKS")
    case True
    with s have "chunk_buffer ty vb1 = []" by simp
    then have "hdr_chunks ty vb1 = 0"
      by (simp flip: chunk_buffer_length)
    with m show ?thesis by simp
  next
    case False
    with s have "chunk_buffer ty vb1 = chunk_buffer ty vb @ [?w]" by simp
    then have "hdr_chunks ty vb1 = Suc ?n"
      by (simp flip: chunk_buffer_length)
    with False Cons.prems(2) show ?thesis by simp
  qed
  from Cons.IH [of vb1] Cons.prems(1) b lt obtain vb' where
    r: "add_chunks cfg q ty cs vb1 = Some vb'"
    and h': "hdr_chunks ty vb' < MAX_PAGE_CHUNKS"
    and t': "trace vb' = trace vb1 @
               concat (map (cap_flush q ty (miscq_out_hdr vb1))
                 (full_batches MAX_PAGE_CHUNKS (chunk_buffer ty vb1 @ map (shifted_chunk cfg) cs)))"
    and c': "concat (full_batches MAX_PAGE_CHUNKS (chunk_buffer ty vb1 @ map (shifted_chunk cfg) cs))
               @ chunk_buffer ty vb' = chunk_buffer ty vb1 @ map (shifted_chunk cfg) cs"
    by auto
  have run: "add_chunks cfg q ty (c # cs) vb = Some vb'"
    using a r by (simp add: add_chunks_def case_prod_beta)
  show ?case
  proof (cases "Suc ?n = MAX_PAGE_CHUNKS")
    case True
    with s have b1: "chunk_buffer ty vb1 = []"
      and t1: "trace vb1 = trace vb @ cap_flush q ty (miscq_out_hdr vb) (chunk_buffer ty vb @ [?w])"
      by simp_all
    have "length (chunk_buffer ty vb @ [?w]) = MAX_PAGE_CHUNKS"
      using True by (simp add: chunk_buffer_length)
    then have fb: "full_batches MAX_PAGE_CHUNKS (chunk_buffer ty vb @ ?w # map (shifted_chunk cfg) cs)
                 = (chunk_buffer ty vb @ [?w]) # full_batches MAX_PAGE_CHUNKS (map (shifted_chunk cfg) cs)"
      using full_batches_full [OF m, of "chunk_buffer ty vb @ [?w]" "map (shifted_chunk cfg) cs"]
      by simp
    show ?thesis
      using run h' t' c' b1 t1 hd by (simp add: fb)
  next
    case False
    with s have b1: "chunk_buffer ty vb1 = chunk_buffer ty vb @ [?w]"
      and t1: "trace vb1 = trace vb"
      by simp_all
    show ?thesis
      using run h' t' c' b1 t1 hd by simp
  qed
qed

text \<open>
  C4: the count of a chunk buffer never exceeds \<open>MAX_PAGE_CHUNKS\<close>; whenever it
  reaches the cap, one flush happens and the count is zero before the next chunk.
  The code resets the count inside \<open>if (!virtqueue_add_outbuf(...))\<close> only. With
  \<open>VIRTIO_BALLOON_F_BALLOON_CHUNKS\<close> negotiated, an empty balloon chunk buffer and
  an inflate queue that refuses the buffer, 4096 calls of \<open>add_one_chunk\<close> reach the
  cap: \<open>send_page_chunks\<close> is called and hands nothing to the host (no event at
  all), and the count is still 4096 afterwards, not zero. The next call writes entry
  4096 of a buffer of 4096 entries and makes the count 4097: the write past the
  buffer is the value \<open>None\<close>.
\<close>

theorem chunk_cap_refused_overrun:
  "map_option (hdr_chunks PAGE_CHUNK_TYPE_BALLOON)
     (add_chunks cfg_4k inflate_vq PAGE_CHUNK_TYPE_BALLOON (replicate 4096 (0, 1))
        (virtballoon_probe True False 0 [] 0 [inflate_vq])) = Some 4096 \<and>
   map_option trace
     (add_chunks cfg_4k inflate_vq PAGE_CHUNK_TYPE_BALLOON (replicate 4096 (0, 1))
        (virtballoon_probe True False 0 [] 0 [inflate_vq])) = Some [] \<and>
   add_chunks cfg_4k inflate_vq PAGE_CHUNK_TYPE_BALLOON (replicate 4096 (0, 1) @ [(0, 1)])
     (virtballoon_probe True False 0 [] 0 [inflate_vq]) = None"
proof -
  let ?vb = "virtballoon_probe True False 0 [] 0 [inflate_vq]"
  let ?cs = "replicate 4096 (0 :: u64, 1 :: u64)"
  have "\<exists>vb'. add_chunks cfg_4k inflate_vq PAGE_CHUNK_TYPE_BALLOON ?cs ?vb = Some vb' \<and>
          broken vb' = broken ?vb \<and>
          hdr_chunks PAGE_CHUNK_TYPE_BALLOON vb' = hdr_chunks PAGE_CHUNK_TYPE_BALLOON ?vb + length ?cs \<and>
          trace vb' = trace ?vb"
    by (rule add_chunks_refused)
       (simp_all add: virtballoon_probe_def hdr_chunks_def MAX_PAGE_CHUNKS_def)
  then obtain vb' where
    a: "add_chunks cfg_4k inflate_vq PAGE_CHUNK_TYPE_BALLOON ?cs ?vb = Some vb'"
    and h: "hdr_chunks PAGE_CHUNK_TYPE_BALLOON vb' = 4096" and t: "trace vb' = []"
    by (auto simp: virtballoon_probe_def hdr_chunks_def)
  have "add_one_chunk cfg_4k inflate_vq PAGE_CHUNK_TYPE_BALLOON 0 1 vb' = None"
    using h by (simp add: add_one_chunk_def MAX_PAGE_CHUNKS_def)
  then have "add_chunks cfg_4k inflate_vq PAGE_CHUNK_TYPE_BALLOON (?cs @ [(0, 1)]) ?vb = None"
    using a unfolding add_chunks_def by (simp add: fold_opt_append)
  with a h t show ?thesis by simp
qed

text \<open>
  On a queue that takes the buffers the cap holds. Every sequence of \<open>add_one_chunk\<close>
  calls that starts below \<open>MAX_PAGE_CHUNKS\<close> returns, with the count the number of
  entries modulo the cap. The entries, those in the buffer at the start followed by the
  shifted chunks of the calls, leave in groups of \<open>MAX_PAGE_CHUNKS\<close>: for each full
  group, in order, one buffer with exactly that group is put on the queue of the calls
  and the driver sleeps until the host has taken it; nothing else happens to the
  outside, and the entries of the incomplete last group are what the buffer holds at
  the end.
\<close>

theorem chunk_cap_flushes:
  assumes "q \<notin> set (broken vb)" and "hdr_chunks ty vb < MAX_PAGE_CHUNKS"
  shows "\<exists>vb'. add_chunks cfg q ty cs vb = Some vb' \<and>
           hdr_chunks ty vb' = (hdr_chunks ty vb + length cs) mod MAX_PAGE_CHUNKS \<and>
           length (flushes (trace vb')) =
             length (flushes (trace vb)) + (hdr_chunks ty vb + length cs) div MAX_PAGE_CHUNKS \<and>
           trace vb' = trace vb @
             concat (map (cap_flush q ty (miscq_out_hdr vb))
               (full_batches MAX_PAGE_CHUNKS (chunk_buffer ty vb @ map (shifted_chunk cfg) cs))) \<and>
           concat (full_batches MAX_PAGE_CHUNKS (chunk_buffer ty vb @ map (shifted_chunk cfg) cs))
             @ chunk_buffer ty vb' = chunk_buffer ty vb @ map (shifted_chunk cfg) cs"
proof -
  from add_chunks_flush [OF assms, of cfg cs] obtain vb' where
    a: "add_chunks cfg q ty cs vb = Some vb'"
    and t: "trace vb' = trace vb @
             concat (map (cap_flush q ty (miscq_out_hdr vb))
               (full_batches MAX_PAGE_CHUNKS (chunk_buffer ty vb @ map (shifted_chunk cfg) cs)))"
    and c: "concat (full_batches MAX_PAGE_CHUNKS (chunk_buffer ty vb @ map (shifted_chunk cfg) cs))
             @ chunk_buffer ty vb' = chunk_buffer ty vb @ map (shifted_chunk cfg) cs"
    by blast
  from add_chunks_accepted [OF assms, of cfg cs] a
  have "hdr_chunks ty vb' = (hdr_chunks ty vb + length cs) mod MAX_PAGE_CHUNKS"
    and "length (flushes (trace vb')) =
           length (flushes (trace vb)) + (hdr_chunks ty vb + length cs) div MAX_PAGE_CHUNKS"
    by auto
  with a t c show ?thesis by blast
qed

theorem chunk_cap_flushes_witness:
  "\<exists>vb'. add_chunks cfg_4k inflate_vq PAGE_CHUNK_TYPE_BALLOON [(1, 1), (2, 1)]
            ((virtballoon_probe True False 0 [] 0 [])
               \<lparr>balloon_page_chunk := replicate 4095 \<lparr>chunk_base = 0, chunk_size = 4096\<rparr>\<rparr>)
          = Some vb' \<and>
        balloon_page_chunk vb' = [\<lparr>chunk_base = 8192, chunk_size = 4096\<rparr>] \<and>
        trace vb' =
          [Submit inflate_vq
             (BalloonChunks (replicate 4095 \<lparr>chunk_base = 0, chunk_size = 4096\<rparr> @
                [\<lparr>chunk_base = 4096, chunk_size = 4096\<rparr>])),
           WaitAck inflate_vq Blocking]"
proof -
  let ?c0 = "\<lparr>chunk_base = 0 :: u64, chunk_size = 4096 :: u64\<rparr>"
  let ?vb = "(virtballoon_probe True False 0 [] 0 [])\<lparr>balloon_page_chunk := replicate 4095 ?c0\<rparr>"
  let ?cs = "[(1 :: u64, 1 :: u64), (2, 1)]"
  let ?all = "chunk_buffer PAGE_CHUNK_TYPE_BALLOON ?vb @ map (shifted_chunk cfg_4k) ?cs"
  have w: "shifted_chunk cfg_4k (1, 1) = \<lparr>chunk_base = 4096, chunk_size = 4096\<rparr>"
    "shifted_chunk cfg_4k (2, 1) = \<lparr>chunk_base = 8192, chunk_size = 4096\<rparr>"
    by (simp_all add: shifted_chunk_def cfg_4k_simps)
  have fb: "full_batches 4096
              (replicate 4095 ?c0 @
                 [\<lparr>chunk_base = 4096, chunk_size = 4096\<rparr>, \<lparr>chunk_base = 8192, chunk_size = 4096\<rparr>]) =
              [replicate 4095 ?c0 @ [\<lparr>chunk_base = 4096, chunk_size = 4096\<rparr>]]"
    by (simp add: full_batches_step full_batches_short)
  have "\<exists>vb'. add_chunks cfg_4k inflate_vq PAGE_CHUNK_TYPE_BALLOON ?cs ?vb = Some vb' \<and>
           hdr_chunks PAGE_CHUNK_TYPE_BALLOON vb' =
             (hdr_chunks PAGE_CHUNK_TYPE_BALLOON ?vb + length ?cs) mod MAX_PAGE_CHUNKS \<and>
           length (flushes (trace vb')) =
             length (flushes (trace ?vb)) +
             (hdr_chunks PAGE_CHUNK_TYPE_BALLOON ?vb + length ?cs) div MAX_PAGE_CHUNKS \<and>
           trace vb' = trace ?vb @
             concat (map (cap_flush inflate_vq PAGE_CHUNK_TYPE_BALLOON (miscq_out_hdr ?vb))
               (full_batches MAX_PAGE_CHUNKS ?all)) \<and>
           concat (full_batches MAX_PAGE_CHUNKS ?all)
             @ chunk_buffer PAGE_CHUNK_TYPE_BALLOON vb' = ?all"
    by (rule chunk_cap_flushes)
       (simp_all add: virtballoon_probe_def hdr_chunks_def MAX_PAGE_CHUNKS_def)
  then show ?thesis
    by (auto simp: virtballoon_probe_def chunk_buffer_def cap_flush_def hdr_chunks_def
          MAX_PAGE_CHUNKS_def w fb)
qed

section \<open>The unused-page inquiry\<close>

text \<open>The chunks of a buffer, and the chunks a trace has handed to the host, in order.\<close>

fun payload_chunks :: "payload \<Rightarrow> virtio_balloon_page_chunk list" where
  "payload_chunks (PfnArray ps) = []"
| "payload_chunks (BalloonChunks cs) = cs"
| "payload_chunks (UnusedChunks h cs) = cs"

definition sent_chunks :: "event list \<Rightarrow> virtio_balloon_page_chunk list" where
  "sent_chunks tr = concat (map payload_chunks (flushes tr))"

lemma sent_chunks_append: "sent_chunks (xs @ ys) = sent_chunks xs @ sent_chunks ys"
  by (simp add: sent_chunks_def flushes_append)

text \<open>
  The free blocks the inquiry asks for, as (pfn, order), in the order of its loops:
  the zones, the orders from \<open>MAX_ORDER - 1\<close> down to 1, the migrate types, and the
  blocks of each free list.
\<close>

definition unused_blocks ::
  "config \<Rightarrow> nat list \<Rightarrow> (nat \<Rightarrow> nat \<Rightarrow> nat \<Rightarrow> page list) \<Rightarrow> (nat \<times> nat) list" where
  "unused_blocks cfg zones free_list =
     concat (map (\<lambda>zone.
       concat (map (\<lambda>order.
         concat (map (\<lambda>migratetype.
           map (\<lambda>page. (page_to_pfn page, order)) (free_list zone order migratetype))
           [0..<MIGRATE_TYPES cfg]))
         (rev [1..<MAX_ORDER cfg])))
       zones)"

text \<open>The chunk on the wire for a block: base the pfn, size \<open>2 ^ order\<close>, both shifted.\<close>

definition wire_chunk :: "config \<Rightarrow> nat \<times> nat \<Rightarrow> virtio_balloon_page_chunk" where
  "wire_chunk cfg b =
     \<lparr>chunk_base = push_bit (VIRTIO_BALLOON_CHUNK_BASE_SHIFT cfg) (word_of_nat (fst b)),
      chunk_size = push_bit (VIRTIO_BALLOON_CHUNK_SIZE_SHIFT cfg) (word_of_nat (2 ^ snd b))\<rparr>"

text \<open>
  What the loops of the inquiry keep: the queue takes buffers, the buffer is below its
  cap, the header is the one set at the start.
\<close>

definition inquiry_inv :: "virtio_balloon_miscq_hdr \<Rightarrow> virtio_balloon \<Rightarrow> bool" where
  "inquiry_inv h vb \<longleftrightarrow>
     miscq \<notin> set (broken vb) \<and> length (unused_page_chunk vb) < MAX_PAGE_CHUNKS \<and>
     miscq_out_hdr vb = h"

text \<open>The chunks given to the encoder so far: those sent and those waiting in the buffer.\<close>

definition emitted :: "virtio_balloon \<Rightarrow> virtio_balloon_page_chunk list" where
  "emitted vb = sent_chunks (trace vb) @ unused_page_chunk vb"

lemma add_one_chunk_unused:
  assumes "inquiry_inv h vb"
  shows "\<exists>vb'. add_one_chunk cfg miscq PAGE_CHUNK_TYPE_UNUSED (word_of_nat pfn)
                  (word_of_nat (2 ^ order)) vb = Some vb' \<and>
               inquiry_inv h vb' \<and> emitted vb' = emitted vb @ [wire_chunk cfg (pfn, order)]"
proof (cases "Suc (length (unused_page_chunk vb)) = MAX_PAGE_CHUNKS")
  case True
  with assms show ?thesis
    by (simp add: inquiry_inv_def add_one_chunk_def hdr_chunks_def store_chunk_def Let_def
          send_page_chunks_def virtqueue_add_outbuf_def reset_chunks_def emit_def chunk_payload_def
          emitted_def sent_chunks_append wire_chunk_def)
       (simp add: sent_chunks_def MAX_PAGE_CHUNKS_def)
next
  case False
  with assms show ?thesis
    by (simp add: inquiry_inv_def add_one_chunk_def hdr_chunks_def store_chunk_def Let_def
          emitted_def wire_chunk_def)
qed

lemma fold_opt_emits:
  assumes "\<And>x s. I s \<Longrightarrow> \<exists>s'. f x s = Some s' \<and> I s' \<and> E s' = E s @ g x"
    and "I s"
  shows "\<exists>s'. fold_opt f xs s = Some s' \<and> I s' \<and> E s' = E s @ concat (map g xs)"
  using assms(2)
proof (induction xs arbitrary: s)
  case Nil
  then show ?case by simp
next
  case (Cons x xs)
  from assms(1) [OF Cons.prems, of x] obtain s1 where
    a: "f x s = Some s1" "I s1" "E s1 = E s @ g x"
    by blast
  from Cons.IH [OF a(2)] obtain s' where
    "fold_opt f xs s1 = Some s'" "I s'" "E s' = E s1 @ concat (map g xs)"
    by blast
  with a show ?case by simp
qed

lemma inquire_loop_emits:
  assumes "inquiry_inv h vb"
  shows "\<exists>vb'. inquire_loop cfg order blocks vb = Some vb' \<and> inquiry_inv h vb' \<and>
           emitted vb' = emitted vb @
             concat (map (\<lambda>page. [wire_chunk cfg (page_to_pfn page, order)]) blocks)"
  unfolding inquire_loop_def
  by (rule fold_opt_emits [where I = "inquiry_inv h" and E = emitted, OF _ assms])
     (rule add_one_chunk_unused)

lemma inquiry_loops_emit:
  assumes "inquiry_inv h vb"
  shows "\<exists>vb'. fold_opt
                (\<lambda>zone. fold_opt
                   (\<lambda>order. fold_opt
                      (\<lambda>migratetype. inquire_loop cfg order (free_list zone order migratetype))
                      [0..<MIGRATE_TYPES cfg])
                   (rev [1..<MAX_ORDER cfg]))
                zones vb = Some vb' \<and>
           inquiry_inv h vb' \<and>
           emitted vb' = emitted vb @ map (wire_chunk cfg) (unused_blocks cfg zones free_list)"
proof -
  let ?g3 = "\<lambda>zone order migratetype.
               concat (map (\<lambda>page. [wire_chunk cfg (page_to_pfn page, order)])
                         (free_list zone order migratetype))"
  let ?g2 = "\<lambda>zone order. concat (map (?g3 zone order) [0..<MIGRATE_TYPES cfg])"
  let ?g1 = "\<lambda>zone. concat (map (?g2 zone) (rev [1..<MAX_ORDER cfg]))"
  have l3: "\<exists>s'. inquire_loop cfg order (free_list zone order mt) s = Some s' \<and>
                 inquiry_inv h s' \<and> emitted s' = emitted s @ ?g3 zone order mt"
    if "inquiry_inv h s" for zone order mt s
    using that by (rule inquire_loop_emits)
  have l2: "\<exists>s'. fold_opt (\<lambda>mt. inquire_loop cfg order (free_list zone order mt))
                   [0..<MIGRATE_TYPES cfg] s = Some s' \<and>
                 inquiry_inv h s' \<and> emitted s' = emitted s @ ?g2 zone order"
    if "inquiry_inv h s" for zone order s
    by (rule fold_opt_emits [where I = "inquiry_inv h" and E = emitted and g = "?g3 zone order",
          OF _ that]) (rule l3)
  have l1: "\<exists>s'. fold_opt (\<lambda>order. fold_opt (\<lambda>mt. inquire_loop cfg order (free_list zone order mt))
                   [0..<MIGRATE_TYPES cfg]) (rev [1..<MAX_ORDER cfg]) s = Some s' \<and>
                 inquiry_inv h s' \<and> emitted s' = emitted s @ ?g1 zone"
    if "inquiry_inv h s" for zone s
    by (rule fold_opt_emits [where I = "inquiry_inv h" and E = emitted and g = "?g2 zone",
          OF _ that]) (rule l2)
  have "\<exists>s'. fold_opt (\<lambda>zone. fold_opt (\<lambda>order. fold_opt
                   (\<lambda>mt. inquire_loop cfg order (free_list zone order mt))
                   [0..<MIGRATE_TYPES cfg]) (rev [1..<MAX_ORDER cfg])) zones vb = Some s' \<and>
               inquiry_inv h s' \<and> emitted s' = emitted vb @ concat (map ?g1 zones)"
    by (rule fold_opt_emits [where I = "inquiry_inv h" and E = emitted and g = ?g1,
          OF _ assms]) (rule l1)
  moreover have "concat (map ?g1 zones) = map (wire_chunk cfg) (unused_blocks cfg zones free_list)"
    by (simp add: unused_blocks_def map_concat comp_def concat_map_singleton)
  ultimately show ?thesis by simp
qed

lemma miscq_send_unused_pages_emits:
  assumes "miscq \<notin> set (broken vb)" and "length (unused_page_chunk vb) < MAX_PAGE_CHUNKS"
  shows "\<exists>vb' tr tail.
           miscq_send_unused_pages cfg zones free_list vb = Some vb' \<and>
           sent_chunks (trace vb') =
             sent_chunks (trace vb) @ unused_page_chunk vb @
             map (wire_chunk cfg) (unused_blocks cfg zones free_list) \<and>
           unused_page_chunk vb' = [] \<and>
           trace vb' = tr @
             [Submit miscq
                (UnusedChunks \<lparr>cmd = VIRTIO_BALLOON_MISCQ_INQUIRE_UNUSED_PAGES,
                               flags = VIRTIO_BALLOON_MISCQ_F_COMPLETE\<rparr> tail),
              WaitAck miscq Busy]"
proof -
  let ?h = "\<lparr>cmd = VIRTIO_BALLOON_MISCQ_INQUIRE_UNUSED_PAGES, flags = 0\<rparr>"
  let ?vb1 = "vb\<lparr>miscq_out_hdr := ?h\<rparr>"
  have "inquiry_inv ?h ?vb1"
    using assms by (simp add: inquiry_inv_def)
  from inquiry_loops_emit [OF this, of cfg free_list zones] obtain vb2 where
    l: "fold_opt
          (\<lambda>zone. fold_opt
             (\<lambda>order. fold_opt
                (\<lambda>migratetype. inquire_loop cfg order (free_list zone order migratetype))
                [0..<MIGRATE_TYPES cfg])
             (rev [1..<MAX_ORDER cfg]))
          zones ?vb1 = Some vb2"
    and i: "inquiry_inv ?h vb2"
    and e: "emitted vb2 = emitted ?vb1 @ map (wire_chunk cfg) (unused_blocks cfg zones free_list)"
    by blast
  let ?h' = "\<lparr>cmd = VIRTIO_BALLOON_MISCQ_INQUIRE_UNUSED_PAGES,
              flags = VIRTIO_BALLOON_MISCQ_F_COMPLETE\<rparr>"
  let ?vb3 = "vb2\<lparr>miscq_out_hdr := ?h'\<rparr>"
  let ?vb' = "send_page_chunks miscq PAGE_CHUNK_TYPE_UNUSED True ?vb3"
  have h3: "(miscq_out_hdr vb2)\<lparr>flags := or (flags (miscq_out_hdr vb2))
              VIRTIO_BALLOON_MISCQ_F_COMPLETE\<rparr> = ?h'"
    using i by (simp add: inquiry_inv_def)
  have r: "miscq_send_unused_pages cfg zones free_list vb = Some ?vb'"
    using l h3 by (simp add: miscq_send_unused_pages_def Let_def)
  have nb: "miscq \<notin> set (broken vb2)"
    using i by (simp add: inquiry_inv_def)
  have t: "trace ?vb' = trace vb2 @
             [Submit miscq (UnusedChunks ?h' (unused_page_chunk vb2)), WaitAck miscq Busy]"
    and u: "unused_page_chunk ?vb' = []"
    using nb
    by (simp_all add: send_page_chunks_def virtqueue_add_outbuf_def reset_chunks_def emit_def
          chunk_payload_def)
  have "sent_chunks (trace ?vb') = emitted vb2"
    by (simp add: t emitted_def sent_chunks_append) (simp add: sent_chunks_def)
  with e have "sent_chunks (trace ?vb') =
                 sent_chunks (trace vb) @ unused_page_chunk vb @
                 map (wire_chunk cfg) (unused_blocks cfg zones free_list)"
    by (simp add: emitted_def)
  with r t u show ?thesis by blast
qed

text \<open>An allocator whose only free block is the single page 5, in zone 0.\<close>

definition order0_block :: "nat \<Rightarrow> nat \<Rightarrow> nat \<Rightarrow> page list" where
  "order0_block zone order migratetype =
     (if zone = 0 \<and> order = 0 \<and> migratetype = 0 then [5] else [])"

text \<open>An allocator with one block of order 3 at pfn 8 and one of order 1 at pfn 2.\<close>

definition two_blocks :: "nat \<Rightarrow> nat \<Rightarrow> nat \<Rightarrow> page list" where
  "two_blocks zone order migratetype =
     (if zone = 0 \<and> order = 3 \<and> migratetype = 0 then [8]
      else if zone = 0 \<and> order = 1 \<and> migratetype = 2 then [2] else [])"

text \<open>
  C8, as the spec has it: the inquiry emits a chunk for every free block of every
  order. The loop over the orders is \<open>for (order = MAX_ORDER - 1; order > 0; order--)\<close>:
  the free lists of order 0 are not asked for, and an allocator whose free block is a
  single page gets an answer with no chunk.
\<close>

theorem inquiry_order0_counterexample:
  "order0_block 0 0 0 = [5] \<and>
   map_option (sent_chunks \<circ> trace)
     (miscq_send_unused_pages cfg_4k [0] order0_block
        (virtballoon_probe False False 0 [] 0 [])) = Some []"
proof -
  have "unused_blocks cfg_4k [0] order0_block = []"
    by (auto simp: unused_blocks_def order0_block_def)
  with miscq_send_unused_pages_emits [of "virtballoon_probe False False 0 [] 0 []"
         cfg_4k "[0]" order0_block]
  show ?thesis
    by (auto simp: virtballoon_probe_def MAX_PAGE_CHUNKS_def sent_chunks_def order0_block_def)
qed

text \<open>
  C8, amended: on a queue that takes buffers, the inquiry hands the host, in order,
  one chunk (base the block's pfn, size \<open>2 ^ order\<close>, both shifted for the wire) for
  every block of the free lists of every populated zone, of the orders from
  \<open>MAX_ORDER - 1\<close> down to 1 and of every migrate type, after whatever the buffer
  held before; its last buffer carries the flag "complete" and is waited for busily,
  and the buffer is empty afterwards.
\<close>

theorem inquiry_emits_blocks:
  assumes "miscq \<notin> set (broken vb)" and "length (unused_page_chunk vb) < MAX_PAGE_CHUNKS"
  shows "\<exists>vb' tr tail.
           miscq_send_unused_pages cfg zones free_list vb = Some vb' \<and>
           sent_chunks (trace vb') =
             sent_chunks (trace vb) @ unused_page_chunk vb @
             map (wire_chunk cfg) (unused_blocks cfg zones free_list) \<and>
           unused_page_chunk vb' = [] \<and>
           trace vb' = tr @
             [Submit miscq
                (UnusedChunks \<lparr>cmd = VIRTIO_BALLOON_MISCQ_INQUIRE_UNUSED_PAGES,
                               flags = VIRTIO_BALLOON_MISCQ_F_COMPLETE\<rparr> tail),
              WaitAck miscq Busy]"
  using assms by (rule miscq_send_unused_pages_emits)

lemma unused_blocks_two_blocks: "unused_blocks cfg_4k [0] two_blocks = [(8, 3), (2, 1)]"
proof -
  have o: "[1..<11] = [1, 2, 3, 4, 5, 6, 7, 8, 9, 10 :: nat]"
    by (simp add: upt_rec)
  have m: "[0..<6] = [0, 1, 2, 3, 4, 5 :: nat]"
    by (simp add: upt_rec)
  show ?thesis
    unfolding unused_blocks_def cfg_4k_simps o m
    by (simp add: two_blocks_def page_to_pfn_def)
qed

theorem inquiry_emits_blocks_witness:
  "\<exists>vb'. miscq_send_unused_pages cfg_4k [0] two_blocks (virtballoon_probe False False 0 [] 0 [])
          = Some vb' \<and>
        sent_chunks (trace vb') =
          [\<lparr>chunk_base = 32768, chunk_size = 32768\<rparr>, \<lparr>chunk_base = 8192, chunk_size = 8192\<rparr>]"
proof -
  from inquiry_emits_blocks [of "virtballoon_probe False False 0 [] 0 []" cfg_4k "[0]" two_blocks]
  show ?thesis
    by (auto simp: virtballoon_probe_def MAX_PAGE_CHUNKS_def sent_chunks_def
          unused_blocks_two_blocks wire_chunk_def cfg_4k_simps)
qed

section \<open>Page migration\<close>

text \<open>
  On the array path the swap tells the host about the new page on the inflate queue,
  then about the old page on the deflate queue, and only then drops the lock and the
  reference to the old page.
\<close>

lemma fold_list_update_append0:
  "n \<le> length xs \<Longrightarrow>
     fold (\<lambda>i a. a[i := f i]) [0..<n] xs = map f [0..<n] @ drop n xs"
  using fold_list_update_append [of 0 n xs f] by simp

lemma migratepage_array_path:
  assumes "config_ok cfg" and "\<not> F_BALLOON_CHUNKS vb" and "\<not> balloon_lock vb"
    and "inflate_vq \<notin> set (broken vb)" and "deflate_vq \<notin> set (broken vb)"
    and "length (pfns vb) = 256"
  shows "\<exists>vb'. virtballoon_migratepage cfg newpage page vb = Some (vb', MIGRATEPAGE_SUCCESS) \<and>
           trace vb' = trace vb @
             [Lock, GetPage newpage,
              Submit inflate_vq (PfnArray (page_pfns cfg newpage)), WaitAck inflate_vq Blocking,
              Submit deflate_vq (PfnArray (page_pfns cfg page)), WaitAck deflate_vq Blocking,
              Unlock, PutPage page]"
proof -
  let ?K = "VIRTIO_BALLOON_PAGES_PER_PAGE cfg"
  have K: "?K \<le> 256" "0 < ?K"
    using pages_per_page_dvd [OF assms(1)] by (auto dest: dvd_imp_le)
  have uk: "unat (word_of_nat ?K :: u32) = ?K"
    using K by (simp add: unat_small)
  have tell: "migrate_tell cfg q p v =
                Some (emit (WaitAck q Blocking) (emit (Submit q (PfnArray (page_pfns cfg p)))
                  (v\<lparr>num_pfns := word_of_nat ?K,
                     pfns := page_pfns cfg p @ drop ?K (pfns v)\<rparr>)))"
    if "\<not> F_BALLOON_CHUNKS v" "length (pfns v) = 256" "q \<notin> set (broken v)" for q p v
    using that K uk
    by (simp add: migrate_tell_def set_page_pfns_def page_pfns_def fold_list_update_append0
          tell_host_def virtqueue_add_outbuf_def emit_def)
  show ?thesis
    using assms K
    by (simp add: virtballoon_migratepage_def Let_def tell balloon_page_insert_def
          balloon_page_delete_def emit_def mutex_unlock_def length_page_pfns)
qed

text \<open>
  C3 is about every execution of the swap. With the chunk feature negotiated,
  \<open>tell_host_one_page\<close> only appends a chunk to the balloon chunk buffer: the swap
  below returns with the lock dropped and the old page released, and the host has been
  told nothing; both chunks wait in the buffer, for whichever queue flushes it next.
\<close>

theorem migratepage_chunks_not_sent:
  "map_option (trace \<circ> fst)
     (virtballoon_migratepage cfg_4k 9 7
        ((virtballoon_probe True False 2 [] 0 [])
           \<lparr>pages := [3], num_pages := 2, isolated_pages := 1\<rparr>))
     = Some [Lock, GetPage 9, Unlock, PutPage 7] \<and>
   map_option (balloon_page_chunk \<circ> fst)
     (virtballoon_migratepage cfg_4k 9 7
        ((virtballoon_probe True False 2 [] 0 [])
           \<lparr>pages := [3], num_pages := 2, isolated_pages := 1\<rparr>))
     = Some [\<lparr>chunk_base = 36864, chunk_size = 4096\<rparr>, \<lparr>chunk_base = 28672, chunk_size = 4096\<rparr>] \<and>
   map_option snd
     (virtballoon_migratepage cfg_4k 9 7
        ((virtballoon_probe True False 2 [] 0 [])
           \<lparr>pages := [3], num_pages := 2, isolated_pages := 1\<rparr>))
     = Some MIGRATEPAGE_SUCCESS"
  by (simp add: virtballoon_migratepage_def Let_def migrate_tell_def tell_host_one_page_def
        add_one_chunk_def store_chunk_def hdr_chunks_def MAX_PAGE_CHUNKS_def
        balloon_page_insert_def balloon_page_delete_def emit_def mutex_unlock_def
        virtballoon_probe_def page_to_pfn_def cfg_4k_simps)

section \<open>The run-length path\<close>

text \<open>
  Modelled from the spec: the host's decoding of a chunk, the inverse of the two
  shifts of the wire format: the pfns \<open>base, ..., base + size - 1\<close>.
\<close>

definition chunk_pfns :: "config \<Rightarrow> virtio_balloon_page_chunk \<Rightarrow> nat list" where
  "chunk_pfns cfg c =
     (let base = unat (drop_bit (VIRTIO_BALLOON_CHUNK_BASE_SHIFT cfg) (chunk_base c));
          sz = unat (drop_bit (VIRTIO_BALLOON_CHUNK_SIZE_SHIFT cfg) (chunk_size c))
      in [base..<base + sz])"

definition decoded :: "config \<Rightarrow> event list \<Rightarrow> nat list" where
  "decoded cfg tr = concat (map (chunk_pfns cfg) (sent_chunks tr))"

text \<open>
  C2 is about every finite set of balloon pfns. Two batches the code can get:
  \<^item> one page whose balloon pfn is a multiple of \<open>BITS_PER_LONG\<close>, here 64:
    \<open>rounddown\<close> and \<open>roundup\<close> leave \<open>pfn_min = pfn_max = 64\<close>, the loop
    \<open>while (pfn_start < vb->pfn_max)\<close> is not entered, and the page joins the ledger
    with no chunk sent: the decoded set is empty;
  \<^item> two pages whose span needs a second bitmap, when \<open>kmalloc\<close> gives none: the
    pass ends at \<open>pfn_stop = pfn_start + PFNS_PER_PAGE_BMAP\<close>, a bound the test
    \<open>balloon_pfn > pfn_stop\<close> lets through, and \<open>set_bit\<close> is called on
    \<open>page_bmap[1]\<close>, which holds no bitmap: the call has no result.
\<close>

theorem rle_roundtrip_fails:
  "map_option (pages \<circ> fst)
     (fill_balloon cfg_4k 1 (virtballoon_probe True False 1 [Some 64] 0 [])) = Some [64] \<and>
   map_option (decoded cfg_4k \<circ> trace \<circ> fst)
     (fill_balloon cfg_4k 1 (virtballoon_probe True False 1 [Some 64] 0 [])) = Some [] \<and>
   fill_balloon cfg_4k 2 (virtballoon_probe True False 2 [Some 0, Some 262144] 0 []) = None"
proof -
  have a: "map_option (\<lambda>r. (pages (fst r), trace (fst r)))
             (fill_balloon cfg_4k 1 (virtballoon_probe True False 1 [Some 64] 0 []))
           = Some ([64], [Lock, Unlock])"
    by (simp add: array_path_defs chunk_path_defs cfg_4k_simps)
  have b: "fill_balloon cfg_4k 2 (virtballoon_probe True False 2 [Some 0, Some 262144] 0 []) = None"
    by (simp add: array_path_defs chunk_path_defs cfg_4k_simps upt_rec)
  have "decoded cfg_4k [Lock, Unlock] = []"
    by (simp add: decoded_def sent_chunks_def)
  with a b show ?thesis
    by (auto simp: map_option_case split: option.splits)
qed

text \<open>
  C7 is about every batch of exactly one balloon pfn. A deflate batch that takes the
  single page 64 off the ledger emits no chunk at all: the page is released and the
  host has been handed nothing (the same \<open>roundup\<close> of an aligned \<open>pfn_max\<close> as
  above).
\<close>

theorem single_pfn_no_chunk:
  "map_option (trace \<circ> fst)
     (leak_balloon cfg_4k 1
        ((virtballoon_probe True False 0 [] 0 [])\<lparr>pages := [64], num_pages := 1\<rparr>))
     = Some [Lock, PutPage 64, Unlock] \<and>
   map_option (balloon_page_chunk \<circ> fst)
     (leak_balloon cfg_4k 1
        ((virtballoon_probe True False 0 [] 0 [])\<lparr>pages := [64], num_pages := 1\<rparr>))
     = Some []"
  by (simp add: array_path_defs chunk_path_defs cfg_4k_simps)

text \<open>
  The encoder itself is right on a bitmap with one bit: exactly one
  \<open>add_one_chunk\<close>, with the run length one.
\<close>

lemma single_bit_one_chunk:
  assumes "b < e"
  shows "chunking_loop cfg q ps [b] e 0 vb =
           add_one_chunk cfg q PAGE_CHUNK_TYPE_BALLOON (word_of_nat (ps + b)) 1 vb"
proof -
  have one: "find_next_bit [b] e 0 = b"
    using assms by (simp add: find_next_bit_def)
  have zero: "find_next_zero_bit [b] e (Suc b) = Suc b"
    using assms by (subst find_next_zero_bit.simps) simp
  have rest: "chunking_loop cfg q ps [b] e p v = Some v" if "b < p" for p v
    using that by (subst chunking_loop.simps) (simp add: find_next_bit_def)
  have "chunking_loop cfg q ps [b] e 0 vb =
          (case add_one_chunk cfg q PAGE_CHUNK_TYPE_BALLOON (word_of_nat (ps + b)) 1 vb of
             None \<Rightarrow> None
           | Some vb' \<Rightarrow> chunking_loop cfg q ps [b] e (Suc b) vb')"
    using assms by (subst chunking_loop.simps) (auto simp: one zero Let_def le_Suc_eq cong: option.case_cong)
  then show ?thesis
    by (simp add: rest split: option.splits)
qed

section \<open>The encoder on one bitmap\<close>

lemma fold_min_mem: "fold min xs (n::nat) \<in> insert n (set xs)"
proof (induction xs arbitrary: n)
  case Nil
  show ?case by simp
next
  case (Cons a xs)
  show ?case
  proof (cases "a \<le> n")
    case True
    then have "min a n = a" by simp
    with Cons.IH [of a] show ?thesis by auto
  next
    case False
    then have "min a n = n" by simp
    with Cons.IH [of n] show ?thesis by auto
  qed
qed

lemma fold_min_lower: "x \<in> set xs \<Longrightarrow> fold min xs (n::nat) \<le> x"
proof (induction xs arbitrary: n)
  case Nil
  then show ?case by simp
next
  case (Cons a xs)
  show ?case
  proof (cases "x = a")
    case True
    have "fold min xs (min a n) \<le> min a n" by (rule fold_min_le)
    with True show ?thesis by simp
  next
    case False
    with Cons.prems have "x \<in> set xs" by simp
    then show ?thesis by (simp add: Cons.IH)
  qed
qed

text \<open>What \<open>find_next_bit\<close> finds: the first set bit from \<open>offset\<close> on.\<close>

lemma find_next_bit_set:
  "find_next_bit bmap nbits offset < nbits \<Longrightarrow> find_next_bit bmap nbits offset \<in> set bmap"
  using fold_min_mem [of "filter (\<lambda>b. offset \<le> b) bmap" nbits]
  by (auto simp: find_next_bit_def)

lemma find_next_bit_first:
  assumes "offset \<le> b" and "b < find_next_bit bmap nbits offset"
  shows "b \<notin> set bmap"
proof
  assume "b \<in> set bmap"
  with assms(1) have "b \<in> set (filter (\<lambda>b. offset \<le> b) bmap)" by simp
  then have "find_next_bit bmap nbits offset \<le> b"
    unfolding find_next_bit_def by (rule fold_min_lower)
  with assms(2) show False by simp
qed

text \<open>What \<open>find_next_zero_bit\<close> finds: the first clear bit from \<open>offset\<close> on.\<close>

lemma find_next_zero_bit_le:
  "offset \<le> nbits \<Longrightarrow> find_next_zero_bit bmap nbits offset \<le> nbits"
proof (induction bmap nbits offset rule: find_next_zero_bit.induct)
  case (1 bmap nbits offset)
  show ?case
  proof (cases "offset < nbits \<and> offset \<in> set bmap")
    case True
    with "1.IH" show ?thesis
      by (subst find_next_zero_bit.simps) simp
  next
    case False
    then show ?thesis
      by (subst find_next_zero_bit.simps) auto
  qed
qed

lemma find_next_zero_bit_run:
  "offset \<le> b \<Longrightarrow> b < find_next_zero_bit bmap nbits offset \<Longrightarrow> b \<in> set bmap"
proof (induction bmap nbits offset rule: find_next_zero_bit.induct)
  case (1 bmap nbits offset)
  show ?case
  proof (cases "offset < nbits \<and> offset \<in> set bmap")
    case True
    then have z: "find_next_zero_bit bmap nbits offset = find_next_zero_bit bmap nbits (Suc offset)"
      by (subst find_next_zero_bit.simps) simp
    show ?thesis
    proof (cases "b = offset")
      case True
      with \<open>offset < nbits \<and> offset \<in> set bmap\<close> show ?thesis by simp
    next
      case False
      with "1.prems"(1) have "Suc offset \<le> b" by simp
      with "1.IH" [OF True] "1.prems"(2) z show ?thesis by simp
    qed
  next
    case False
    then have "find_next_zero_bit bmap nbits offset = min offset nbits"
      by (subst find_next_zero_bit.simps) auto
    with "1.prems" show ?thesis by simp
  qed
qed

text \<open>The set bits of a bitmap in a range of indexes, in order.\<close>

definition set_bits :: "bitmap \<Rightarrow> nat \<Rightarrow> nat \<Rightarrow> nat list" where
  "set_bits bmap lo hi = filter (\<lambda>b. b \<in> set bmap) [lo..<hi]"

lemma set_bits_split:
  assumes "lo \<le> mid" and "mid \<le> hi"
  shows "set_bits bmap lo hi = set_bits bmap lo mid @ set_bits bmap mid hi"
proof -
  have "[lo..<hi] = [lo..<mid] @ [mid..<hi]"
    using assms by (metis le_Suc_ex upt_add_eq_append)
  then show ?thesis by (simp add: set_bits_def)
qed

lemma set_bits_none: "(\<And>b. lo \<le> b \<Longrightarrow> b < hi \<Longrightarrow> b \<notin> set bmap) \<Longrightarrow> set_bits bmap lo hi = []"
  by (simp add: set_bits_def)

lemma set_bits_all: "(\<And>b. lo \<le> b \<Longrightarrow> b < hi \<Longrightarrow> b \<in> set bmap) \<Longrightarrow> set_bits bmap lo hi = [lo..<hi]"
  by (simp add: set_bits_def)

text \<open>One round of the scan: a gap with no set bit, a run of set bits, and the rest.\<close>

lemma set_bits_round:
  assumes "pos < e" and "find_next_bit bmap e pos < e"
  defines "one \<equiv> find_next_bit bmap e pos"
  defines "zero \<equiv> find_next_zero_bit bmap e (one + 1)"
  shows "one + 1 \<le> zero" and "zero \<le> e" and "pos \<le> one"
    and "set_bits bmap pos e = [one..<zero] @ set_bits bmap zero e"
proof -
  show p: "pos \<le> one"
    unfolding one_def using assms(1) by (intro find_next_bit_ge) simp
  have o: "one < e" using assms(2) by (simp add: one_def)
  show z1: "one + 1 \<le> zero"
    unfolding zero_def using o by (intro find_next_zero_bit_ge) simp
  show z2: "zero \<le> e"
    unfolding zero_def using o by (intro find_next_zero_bit_le) simp
  have gap: "set_bits bmap pos one = []"
    by (rule set_bits_none) (auto simp: one_def dest: find_next_bit_first)
  have "b \<in> set bmap" if "one \<le> b" "b < zero" for b
  proof (cases "b = one")
    case True
    then show ?thesis
      using find_next_bit_set [OF assms(2)] by (simp add: one_def)
  next
    case False
    with that have "one + 1 \<le> b" by simp
    then show ?thesis
      using that(2) unfolding zero_def by (rule find_next_zero_bit_run)
  qed
  then have run: "set_bits bmap one zero = [one..<zero]"
    by (intro set_bits_all)
  have "set_bits bmap pos e = set_bits bmap pos one @ set_bits bmap one e"
    using p o by (intro set_bits_split) simp_all
  also have "set_bits bmap one e = set_bits bmap one zero @ set_bits bmap zero e"
    using z1 z2 by (intro set_bits_split) simp_all
  finally show "set_bits bmap pos e = [one..<zero] @ set_bits bmap zero e"
    by (simp add: gap run)
qed

text \<open>
  The chunks given to the balloon buffer so far, sent or waiting, and the pfns the
  host decodes from them.
\<close>

definition emitted_balloon :: "virtio_balloon \<Rightarrow> virtio_balloon_page_chunk list" where
  "emitted_balloon vb = sent_chunks (trace vb) @ balloon_page_chunk vb"

definition decoded_balloon :: "config \<Rightarrow> virtio_balloon \<Rightarrow> nat list" where
  "decoded_balloon cfg vb = concat (map (chunk_pfns cfg) (emitted_balloon vb))"

definition balloon_inv :: "vq \<Rightarrow> virtio_balloon \<Rightarrow> bool" where
  "balloon_inv q vb \<longleftrightarrow>
     q \<notin> set (broken vb) \<and> length (balloon_page_chunk vb) < MAX_PAGE_CHUNKS"

lemma add_one_chunk_balloon:
  assumes "balloon_inv q vb"
  shows "\<exists>vb'. add_one_chunk cfg q PAGE_CHUNK_TYPE_BALLOON base sz vb = Some vb' \<and>
           balloon_inv q vb' \<and>
           emitted_balloon vb' = emitted_balloon vb @
             [\<lparr>chunk_base = push_bit (VIRTIO_BALLOON_CHUNK_BASE_SHIFT cfg) base,
               chunk_size = push_bit (VIRTIO_BALLOON_CHUNK_SIZE_SHIFT cfg) sz\<rparr>]"
proof (cases "Suc (length (balloon_page_chunk vb)) = MAX_PAGE_CHUNKS")
  case True
  with assms show ?thesis
    by (simp add: balloon_inv_def add_one_chunk_def hdr_chunks_def store_chunk_def Let_def
          send_page_chunks_def virtqueue_add_outbuf_def reset_chunks_def emit_def chunk_payload_def
          emitted_balloon_def sent_chunks_append)
       (simp add: sent_chunks_def MAX_PAGE_CHUNKS_def)
next
  case False
  with assms show ?thesis
    by (simp add: balloon_inv_def add_one_chunk_def hdr_chunks_def store_chunk_def Let_def
          emitted_balloon_def)
qed

text \<open>Shifting a number that fits and shifting it back gives the number.\<close>

lemma unshift_shift:
  assumes "x * 2 ^ s < 2 ^ 64"
  shows "unat (drop_bit s (push_bit s (word_of_nat x :: u64))) = x"
proof -
  have "x \<le> x * 2 ^ s" by simp
  with assms have x: "x < 2 ^ 64" by linarith
  have "push_bit s (word_of_nat x :: u64) = word_of_nat (x * 2 ^ s)"
    by (simp add: push_bit_eq_mult)
  then have "unat (push_bit s (word_of_nat x :: u64)) = x * 2 ^ s"
    using assms by (simp only: unat_of_nat) simp
  then show ?thesis
    by (simp only: unat_drop_bit_eq) (simp add: drop_bit_eq_div)
qed

lemma map_add_upt_shift: "map ((+) k) [a..<b] = [k + a..<k + (b::nat)]"
  by (induction b) simp_all

lemma chunk_pfns_wire:
  assumes "x * 2 ^ VIRTIO_BALLOON_CHUNK_BASE_SHIFT cfg < 2 ^ 64"
    and "n * 2 ^ VIRTIO_BALLOON_CHUNK_SIZE_SHIFT cfg < 2 ^ 64"
  shows "chunk_pfns cfg
           \<lparr>chunk_base = push_bit (VIRTIO_BALLOON_CHUNK_BASE_SHIFT cfg) (word_of_nat x),
            chunk_size = push_bit (VIRTIO_BALLOON_CHUNK_SIZE_SHIFT cfg) (word_of_nat n)\<rparr>
         = [x..<x + n]"
  using assms by (simp add: chunk_pfns_def unshift_shift)

lemma chunking_loop_decoded:
  assumes "balloon_inv q vb"
    and "(ps + e) * 2 ^ VIRTIO_BALLOON_CHUNK_BASE_SHIFT cfg < 2 ^ 64"
    and "(ps + e) * 2 ^ VIRTIO_BALLOON_CHUNK_SIZE_SHIFT cfg < 2 ^ 64"
  shows "\<exists>vb'. chunking_loop cfg q ps bmap e pos vb = Some vb' \<and> balloon_inv q vb' \<and>
           decoded_balloon cfg vb' = decoded_balloon cfg vb @ map ((+) ps) (set_bits bmap pos e)"
  using assms(1)
proof (induction "e - pos" arbitrary: pos vb rule: less_induct)
  case less
  show ?case
  proof (cases "pos < e \<and> find_next_bit bmap e pos < e")
    case False
    have "chunking_loop cfg q ps bmap e pos vb = Some vb"
      using False by (subst chunking_loop.simps) (auto simp: Let_def)
    moreover have "set_bits bmap pos e = []"
    proof (rule set_bits_none)
      fix b
      assume b: "pos \<le> b" "b < e"
      with False have "\<not> find_next_bit bmap e pos < e" by simp
      with b show "b \<notin> set bmap"
        by (intro find_next_bit_first [of pos b bmap e]) simp_all
    qed
    ultimately show ?thesis
      using less.prems by simp
  next
    case True
    define one where "one = find_next_bit bmap e pos"
    define zero where "zero = find_next_zero_bit bmap e (Suc one)"
    have r: "one + 1 \<le> zero" "zero \<le> e" "pos \<le> one"
      "set_bits bmap pos e = [one..<zero] @ set_bits bmap zero e"
      using set_bits_round [of pos e bmap] True by (simp_all add: one_def zero_def)
    have sz: "(if zero \<ge> e then e - one else zero - one) = zero - one"
      using r(2) by auto
    have step: "chunking_loop cfg q ps bmap e pos vb =
                  (case add_one_chunk cfg q PAGE_CHUNK_TYPE_BALLOON (word_of_nat (ps + one))
                          (word_of_nat (zero - one)) vb of
                     None \<Rightarrow> None
                   | Some vb' \<Rightarrow> chunking_loop cfg q ps bmap e zero vb')"
    proof -
      have "one + (zero - one) = zero" "zero - one \<noteq> 0"
        using r(1) by simp_all
      then show ?thesis
        using True sz
        by (subst chunking_loop.simps)
           (simp add: Let_def one_def [symmetric] zero_def [symmetric] del: of_nat_add of_nat_diff
              cong: option.case_cong)
    qed
    from add_one_chunk_balloon [OF less.prems, of cfg "word_of_nat (ps + one)"
        "word_of_nat (zero - one)"]
    obtain vb1 where
      a: "add_one_chunk cfg q PAGE_CHUNK_TYPE_BALLOON (word_of_nat (ps + one))
            (word_of_nat (zero - one)) vb = Some vb1"
      and i: "balloon_inv q vb1"
      and em: "emitted_balloon vb1 = emitted_balloon vb @
             [\<lparr>chunk_base = push_bit (VIRTIO_BALLOON_CHUNK_BASE_SHIFT cfg) (word_of_nat (ps + one)),
               chunk_size = push_bit (VIRTIO_BALLOON_CHUNK_SIZE_SHIFT cfg)
                              (word_of_nat (zero - one))\<rparr>]"
      by blast
    have "e - zero < e - pos"
      using r True by simp
    from less.hyps [OF this i] obtain vb' where
      l: "chunking_loop cfg q ps bmap e zero vb1 = Some vb'" and i': "balloon_inv q vb'"
      and d: "decoded_balloon cfg vb' =
                decoded_balloon cfg vb1 @ map ((+) ps) (set_bits bmap zero e)"
      by blast
    have b1: "(ps + one) * 2 ^ VIRTIO_BALLOON_CHUNK_BASE_SHIFT cfg < 2 ^ 64"
    proof -
      have "(ps + one) * 2 ^ VIRTIO_BALLOON_CHUNK_BASE_SHIFT cfg
              \<le> (ps + e) * 2 ^ VIRTIO_BALLOON_CHUNK_BASE_SHIFT cfg"
        using r by (intro mult_le_mono1) simp
      from this assms(2) show ?thesis by (rule le_less_trans)
    qed
    have b2: "(zero - one) * 2 ^ VIRTIO_BALLOON_CHUNK_SIZE_SHIFT cfg < 2 ^ 64"
    proof -
      have "(zero - one) * 2 ^ VIRTIO_BALLOON_CHUNK_SIZE_SHIFT cfg
              \<le> (ps + e) * 2 ^ VIRTIO_BALLOON_CHUNK_SIZE_SHIFT cfg"
        using r by (intro mult_le_mono1) simp
      from this assms(3) show ?thesis by (rule le_less_trans)
    qed
    have "[ps + one..<ps + one + (zero - one)] = map ((+) ps) [one..<zero]"
      using r(1) by (simp add: map_add_upt_shift)
    with chunk_pfns_wire [OF b1 b2]
    have "decoded_balloon cfg vb1 = decoded_balloon cfg vb @ map ((+) ps) [one..<zero]"
      by (simp add: decoded_balloon_def em)
    with d r(4) have "decoded_balloon cfg vb' =
                        decoded_balloon cfg vb @ map ((+) ps) (set_bits bmap pos e)"
      by simp
    with step a l i' show ?thesis by simp
  qed
qed

text \<open>
  The encoder of the run-length path is right about the bitmap it is given. On a queue
  that takes the buffers and with the balloon chunk buffer below its cap,
  \<open>chunking_pages_from_bmap\<close> returns, and the chunks it adds, whether already sent
  or still waiting in the buffer, decode to \<open>pfn_start\<close> plus the index of each set
  bit among the first \<open>len * BITS_PER_BYTE\<close> bits, every one once and in ascending
  order, and to nothing else. The two bounds say that no shifted base or size leaves
  64 bits.
\<close>

theorem chunking_pages_from_bmap_decoded:
  assumes "q \<notin> set (broken vb)" and "length (balloon_page_chunk vb) < MAX_PAGE_CHUNKS"
    and "(pfn_start' + len * BITS_PER_BYTE) * 2 ^ VIRTIO_BALLOON_CHUNK_BASE_SHIFT cfg < 2 ^ 64"
    and "(pfn_start' + len * BITS_PER_BYTE) * 2 ^ VIRTIO_BALLOON_CHUNK_SIZE_SHIFT cfg < 2 ^ 64"
  shows "\<exists>vb'. chunking_pages_from_bmap cfg q pfn_start' bmap len vb = Some vb' \<and>
           length (balloon_page_chunk vb') < MAX_PAGE_CHUNKS \<and>
           decoded_balloon cfg vb' =
             decoded_balloon cfg vb @
             map ((+) pfn_start') (set_bits bmap 0 (len * BITS_PER_BYTE))"
proof -
  have "balloon_inv q vb"
    using assms(1,2) by (simp add: balloon_inv_def)
  from chunking_loop_decoded [OF this assms(3,4), of bmap 0]
  show ?thesis
    by (auto simp: chunking_pages_from_bmap_def balloon_inv_def)
qed

theorem chunking_pages_from_bmap_decoded_witness:
  "\<exists>vb'. chunking_pages_from_bmap cfg_4k inflate_vq 64 [1, 2, 5] 1
            (virtballoon_probe True False 0 [] 0 []) = Some vb' \<and>
         decoded_balloon cfg_4k vb' = [65, 66, 69]"
proof -
  let ?vb = "virtballoon_probe True False 0 [] 0 []"
  have "\<exists>vb'. chunking_pages_from_bmap cfg_4k inflate_vq 64 [1, 2, 5] 1 ?vb = Some vb' \<and>
           length (balloon_page_chunk vb') < MAX_PAGE_CHUNKS \<and>
           decoded_balloon cfg_4k vb' =
             decoded_balloon cfg_4k ?vb @ map ((+) 64) (set_bits [1, 2, 5] 0 (1 * BITS_PER_BYTE))"
    by (rule chunking_pages_from_bmap_decoded)
       (simp_all add: virtballoon_probe_def MAX_PAGE_CHUNKS_def cfg_4k_simps BITS_PER_BYTE_def)
  moreover have "decoded_balloon cfg_4k ?vb = []"
    by (simp add: decoded_balloon_def emitted_balloon_def sent_chunks_def virtballoon_probe_def)
  moreover have "set_bits [1, 2, 5] 0 (1 * BITS_PER_BYTE) = [1, 2, 5]"
    by (simp add: set_bits_def BITS_PER_BYTE_def upt_rec)
  ultimately show ?thesis
    by auto
qed

end
